theory Spec2Isabelle
  imports Main "HOL-Library.Word"
begin

section \<open>Data model of the Bedrock embedder\<close>

text \<open>
  The development embeds \<^verbatim>\<open>src/services/code-index/embedders/bedrock.ts\<close>.

  A JavaScript string is a sequence of UTF-16 code units and \<^verbatim>\<open>text.length\<close>
  counts those units, so an input text is a list of 16-bit words. Model identifiers,
  translation keys and error messages are compared with ASCII literals only and are
  kept as HOL strings. JavaScript numbers that the code uses as counters
  (\<^verbatim>\<open>batchSize\<close>, \<^verbatim>\<open>maxConcurrency\<close>, \<^verbatim>\<open>maxRetries\<close>, \<^verbatim>\<open>permits\<close>) are
  integers here; fractional values and NaN are outside the model.
\<close>

type_synonym jsstring = "16 word list"

text \<open>
  The value that \<^verbatim>\<open>JSON.parse\<close> yields for a response body. The engine never
  computes with the numbers of a vector; they are carried as they are and stand as
  integers here.
\<close>

datatype json =
    JNull
  | JBool bool
  | JNum int
  | JStr string
  | JArr "json list"
  | JObj "(string \<times> json) list"

text \<open>
  What \<^verbatim>\<open>client.send\<close> may throw: any value; the retry loop reads its optional
  numeric \<^verbatim>\<open>status\<close> (\<^verbatim>\<open>httpError?.status\<close>), the formatter its message.
\<close>

record HttpError =
  status :: "int option"
  message :: string

text \<open>
  Everything \<^verbatim>\<open>createEmbeddings\<close> can throw. \<open>Formatted e n\<close> is the value of
  \<^verbatim>\<open>formatEmbeddingError(e, n)\<close>; \<open>SyntaxError\<close> and \<open>TypeError\<close> are the
  exceptions of \<^verbatim>\<open>JSON.parse\<close> on a body that is not JSON and of reading a
  property of \<^verbatim>\<open>null\<close>.
\<close>

datatype error =
    UnsupportedModel string
  | InvalidTitanResponse
  | InvalidCohereResponse
  | FailedMaxAttempts int
  | Formatted HttpError int
  | SyntaxError
  | TypeError

text \<open>
  The outcome of one \<^verbatim>\<open>client.send\<close>: a response whose body parses to a JSON
  value (\<open>None\<close> when the body is not JSON), or a thrown value.
\<close>

datatype outcome = Resolved "json option" | Rejected HttpError

text \<open>\<^verbatim>\<open>InvokeModelCommandInput\<close>; the body is kept before \<^verbatim>\<open>JSON.stringify\<close>.\<close>

datatype request_body =
    TitanBody jsstring
  | CohereBody "jsstring list" string

record InvokeModelCommandInput =
  modelId :: string
  contentType :: string
  accept :: string
  body :: request_body

text \<open>
  The observable events of a run. A logical call is numbered by the text (Titan) or
  the chunk (Cohere) it serves; \<open>Send c a r\<close> is attempt \<open>a\<close> of logical call \<open>c\<close>
  handing request \<open>r\<close> to the transport, \<open>Delay c d\<close> the \<^verbatim>\<open>setTimeout\<close> of
  \<open>d\<close> milliseconds that call \<open>c\<close> awaits.
\<close>

datatype event = Send nat nat InvokeModelCommandInput | Delay nat int

text \<open>
  The transport is the environment: \<open>tr c a\<close> is what attempt \<open>a\<close> of logical call
  \<open>c\<close> receives. Any run of the real client induces such a function.
\<close>

type_synonym transport = "nat \<Rightarrow> nat \<Rightarrow> outcome"

definition is_send :: "event \<Rightarrow> bool" where
  "is_send e = (case e of Send _ _ _ \<Rightarrow> True | Delay _ _ \<Rightarrow> False)"

definition transport_calls :: "event list \<Rightarrow> nat" where
  "transport_calls evs = length (filter is_send evs)"

definition delays :: "event list \<Rightarrow> int list" where
  "delays evs = concat (map (\<lambda>e. case e of Send _ _ _ \<Rightarrow> [] | Delay _ d \<Rightarrow> [d]) evs)"

section \<open>The provider and its configuration\<close>

text \<open>
  \<^verbatim>\<open>BedrockEmbedderConfig\<close> as the caller passes it (the fields the engine reads).
  An optional property of the object is absent, present with the value
  \<^verbatim>\<open>undefined\<close>, or present with a value.
\<close>

datatype 'a field = Absent | Undefined | Given 'a

record BedrockEmbedderConfig =
  cfg_modelId :: string
  cfg_inputType :: "string field"
  cfg_batchSize :: "int field"
  cfg_maxConcurrency :: "int field"
  cfg_maxRetries :: "int field"

text \<open>
  The instance after the constructor has merged the defaults. Its fields are the
  configuration and \<^verbatim>\<open>maxRetries\<close> (and the client, which is the transport
  parameter of the functions below). There is no semaphore field.
\<close>

record provider =
  p_modelId :: string
  inputType :: "string option"
  batchSize :: int
  maxConcurrency :: int
  maxRetries :: int

text \<open>
  \<^verbatim>\<open>MAX_BATCH_RETRIES\<close> and \<^verbatim>\<open>INITIAL_RETRY_DELAY_MS\<close> come from
  \<^verbatim>\<open>../constants\<close>, which is not part of the sources at hand; they are parameters.
\<close>

text \<open>
  The object spread \<^verbatim>\<open>{ batchSize: 32, ..., ...config }\<close>: a property of
  \<^verbatim>\<open>config\<close> that is present replaces the default, also when its value is
  \<^verbatim>\<open>undefined\<close>; the result is \<open>None\<close> for \<^verbatim>\<open>undefined\<close>.
\<close>

definition spread :: "'a \<Rightarrow> 'a field \<Rightarrow> 'a option" where
  "spread dflt f = (case f of Absent \<Rightarrow> Some dflt | Undefined \<Rightarrow> None | Given v \<Rightarrow> Some v)"

text \<open>
  The constructor. An instance whose \<^verbatim>\<open>batchSize\<close>, \<^verbatim>\<open>maxConcurrency\<close> or
  \<^verbatim>\<open>maxRetries\<close> is \<^verbatim>\<open>undefined\<close> computes with NaN; it is outside the
  integer model, and the constructor yields no provider for it. \<^verbatim>\<open>inputType\<close> has
  no default and is only tested for falsiness, so absent and \<^verbatim>\<open>undefined\<close> are
  the same there.
\<close>

definition constructor :: "int \<Rightarrow> BedrockEmbedderConfig \<Rightarrow> provider option" where
  "constructor MAX_BATCH_RETRIES config =
     (case (spread 32 (cfg_batchSize config),
            spread 5 (cfg_maxConcurrency config),
            spread MAX_BATCH_RETRIES (cfg_maxRetries config)) of
        (Some b, Some c, Some r) \<Rightarrow>
          Some \<lparr> p_modelId = cfg_modelId config,
                 inputType = (case cfg_inputType config of Given t \<Rightarrow> Some t | _ \<Rightarrow> None),
                 batchSize = b, maxConcurrency = c, maxRetries = r \<rparr>
      | _ \<Rightarrow> None)"

definition isTitanModel :: "string \<Rightarrow> bool" where
  "isTitanModel m = (take (length ''amazon.titan-embed-'') m = ''amazon.titan-embed-'')"

definition isCohereModel :: "string \<Rightarrow> bool" where
  "isCohereModel m = (take (length ''cohere.embed-'') m = ''cohere.embed-'')"

section \<open>The retry loop\<close>

text \<open>
  The \<^verbatim>\<open>catch\<close> block of \<^verbatim>\<open>invokeModelWithRetries\<close>: either wait and go round
  again, or throw the formatted error. Telemetry and console output are not modelled.
\<close>

datatype retry_decision = Retry int | Throw error

definition catch_block :: "int \<Rightarrow> int \<Rightarrow> nat \<Rightarrow> HttpError \<Rightarrow> retry_decision" where
  "catch_block INITIAL_RETRY_DELAY_MS maxRetries' attempt err =
     (let hasMoreAttempts = (int attempt < maxRetries' - 1) in
      if status err = Some 429 \<and> hasMoreAttempts
      then Retry (INITIAL_RETRY_DELAY_MS * 2 ^ attempt)
      else Throw (Formatted err maxRetries'))"

text \<open>
  The loop of \<^verbatim>\<open>invokeModelWithRetries\<close> from a given attempt on, for logical call
  \<open>c\<close> whose attempts the transport answers with \<open>send\<close>. It returns what the
  promise settles to and the events in order.
\<close>

function invokeModelLoop ::
  "int \<Rightarrow> int \<Rightarrow> (nat \<Rightarrow> outcome) \<Rightarrow> nat \<Rightarrow> InvokeModelCommandInput \<Rightarrow> nat
     \<Rightarrow> (error + json option) \<times> event list" where
  "invokeModelLoop INITIAL_RETRY_DELAY_MS maxRetries' send c input attempt =
     (if int attempt < maxRetries' then
        (case send attempt of
           Resolved r \<Rightarrow> (Inr r, [Send c attempt input])
         | Rejected err \<Rightarrow>
             (case catch_block INITIAL_RETRY_DELAY_MS maxRetries' attempt err of
                Retry delayMs \<Rightarrow>
                  (let (res, evs) =
                     invokeModelLoop INITIAL_RETRY_DELAY_MS maxRetries' send c input (attempt + 1)
                   in (res, Send c attempt input # Delay c delayMs # evs))
              | Throw e \<Rightarrow> (Inl e, [Send c attempt input])))
      else (Inl (FailedMaxAttempts maxRetries'), []))"
  by pat_completeness auto
termination
  by (relation "measure (\<lambda>(i, m, s, c, inp, a). nat (m - int a))") auto

definition invokeModelWithRetries ::
  "int \<Rightarrow> provider \<Rightarrow> (nat \<Rightarrow> outcome) \<Rightarrow> nat \<Rightarrow> InvokeModelCommandInput
     \<Rightarrow> (error + json option) \<times> event list" where
  "invokeModelWithRetries INITIAL_RETRY_DELAY_MS p send c input =
     invokeModelLoop INITIAL_RETRY_DELAY_MS (maxRetries p) send c input 0"

section \<open>Decoding a response\<close>

text \<open>\<^verbatim>\<open>JSON.parse(new TextDecoder().decode(result.body))\<close>.\<close>

definition JSON_parse :: "json option \<Rightarrow> error + json" where
  "JSON_parse b = (case b of None \<Rightarrow> Inl SyntaxError | Some j \<Rightarrow> Inr j)"

text \<open>
  Reading the property \<^verbatim>\<open>embedding\<close> or \<^verbatim>\<open>embeddings\<close> of a parsed value:
  \<^verbatim>\<open>null\<close> throws, an object yields the member (the last one of a repeated key) or
  \<^verbatim>\<open>undefined\<close>, every other value yields \<^verbatim>\<open>undefined\<close>.
\<close>

fun get_property :: "json \<Rightarrow> string \<Rightarrow> error + json option" where
  "get_property JNull k = Inl TypeError"
| "get_property (JObj kvs) k = Inr (map_of (rev kvs) k)"
| "get_property j k = Inr None"

text \<open>\<^verbatim>\<open>Math.ceil(text.length / 4)\<close>, on the number of UTF-16 code units.\<close>

definition estimate_tokens :: "jsstring \<Rightarrow> nat" where
  "estimate_tokens text = (length text + 3) div 4"

text \<open>\<^verbatim>\<open>Array.prototype.slice(start, end)\<close>, negative indices counting from the end.\<close>

definition js_slice :: "'a list \<Rightarrow> int \<Rightarrow> int \<Rightarrow> 'a list" where
  "js_slice xs start fin =
     (let n = int (length xs);
          k = (if start < 0 then max (n + start) 0 else min start n);
          e = (if fin < 0 then max (n + fin) 0 else min fin n)
      in take (nat (e - k)) (drop (nat k) xs))"

record Usage =
  promptTokens :: nat
  totalTokens :: nat

record EmbeddingResponse =
  embeddings :: "json list"
  usage :: Usage

section \<open>Titan: one text per request\<close>

definition titan_input :: "string \<Rightarrow> jsstring \<Rightarrow> InvokeModelCommandInput" where
  "titan_input model text =
     \<lparr> modelId = model, contentType = ''application/json'', accept = ''application/json'',
       body = TitanBody text \<rparr>"

text \<open>
  The part of \<^verbatim>\<open>embedTitanText\<close> after the transport has answered: parse, read
  \<^verbatim>\<open>embedding\<close>, test \<^verbatim>\<open>Array.isArray\<close>, estimate the tokens.
\<close>

definition titan_decode :: "jsstring \<Rightarrow> json option \<Rightarrow> error + json \<times> nat" where
  "titan_decode text result =
     (case JSON_parse result of
        Inl e \<Rightarrow> Inl e
      | Inr response \<Rightarrow>
          (case get_property response ''embedding'' of
             Inl e \<Rightarrow> Inl e
           | Inr embedding \<Rightarrow>
               (case embedding of
                  Some (JArr xs) \<Rightarrow> Inr (JArr xs, estimate_tokens text)
                | _ \<Rightarrow> Inl InvalidTitanResponse)))"

definition embedTitanText ::
  "int \<Rightarrow> provider \<Rightarrow> (nat \<Rightarrow> outcome) \<Rightarrow> nat \<Rightarrow> jsstring \<Rightarrow> string
     \<Rightarrow> (error + json \<times> nat) \<times> event list" where
  "embedTitanText INITIAL_RETRY_DELAY_MS p send c text model =
     (let input = titan_input model text;
          (result, evs) = invokeModelWithRetries INITIAL_RETRY_DELAY_MS p send c input
      in case result of
           Inl e \<Rightarrow> (Inl e, evs)
         | Inr r \<Rightarrow> (titan_decode text r, evs))"

text \<open>
  The same body entered at attempt \<open>a\<close> of the retry loop; \<^verbatim>\<open>embedTitanText\<close> is
  the case \<open>a = 0\<close>. It relates the steps of the gated tasks below to the method.
\<close>

definition embedTitanFrom ::
  "int \<Rightarrow> provider \<Rightarrow> (nat \<Rightarrow> outcome) \<Rightarrow> nat \<Rightarrow> jsstring \<Rightarrow> string \<Rightarrow> nat
     \<Rightarrow> (error + json \<times> nat) \<times> event list" where
  "embedTitanFrom INITIAL_RETRY_DELAY_MS p send c text model a =
     (let input = titan_input model text;
          (result, evs) = invokeModelLoop INITIAL_RETRY_DELAY_MS (maxRetries p) send c input a
      in case result of
           Inl e \<Rightarrow> (Inl e, evs)
         | Inr r \<Rightarrow> (titan_decode text r, evs))"

section \<open>Cohere: one chunk per request, chunks in sequence\<close>

definition cohere_input :: "provider \<Rightarrow> string \<Rightarrow> jsstring list \<Rightarrow> InvokeModelCommandInput" where
  "cohere_input p model texts =
     \<lparr> modelId = model, contentType = ''application/json'', accept = ''application/json'',
       body = CohereBody texts
                (case inputType p of
                   None \<Rightarrow> ''search_document''
                 | Some t \<Rightarrow> if t = [] then ''search_document'' else t) \<rparr>"

definition cohere_decode :: "jsstring list \<Rightarrow> json option \<Rightarrow> error + json list \<times> nat" where
  "cohere_decode texts result =
     (case JSON_parse result of
        Inl e \<Rightarrow> Inl e
      | Inr response \<Rightarrow>
          (case get_property response ''embeddings'' of
             Inl e \<Rightarrow> Inl e
           | Inr embs \<Rightarrow>
               (case embs of
                  Some (JArr vs) \<Rightarrow>
                    Inr (vs, foldl (\<lambda>sum text. sum + estimate_tokens text) 0 texts)
                | _ \<Rightarrow> Inl InvalidCohereResponse)))"

definition embedCohereBatch ::
  "int \<Rightarrow> provider \<Rightarrow> (nat \<Rightarrow> outcome) \<Rightarrow> nat \<Rightarrow> jsstring list \<Rightarrow> string
     \<Rightarrow> (error + json list \<times> nat) \<times> event list" where
  "embedCohereBatch INITIAL_RETRY_DELAY_MS p send c texts model =
     (let input = cohere_input p model texts;
          (result, evs) = invokeModelWithRetries INITIAL_RETRY_DELAY_MS p send c input
      in case result of
           Inl e \<Rightarrow> (Inl e, evs)
         | Inr r \<Rightarrow> (cohere_decode texts r, evs))"

text \<open>
  The \<^verbatim>\<open>for\<close> loop of \<^verbatim>\<open>processCohereEmbeddings\<close>: \<open>i\<close> is the loop index, \<open>c\<close>
  counts the chunks, the next three arguments are \<^verbatim>\<open>allEmbeddings\<close>,
  \<^verbatim>\<open>totalTokens\<close> and the events so far. With a \<^verbatim>\<open>batchSize\<close> that is not
  positive the index never reaches the end of a non-empty input and the loop does
  not return: the value is \<open>None\<close>.
\<close>

partial_function (option) cohere_loop ::
  "int \<Rightarrow> provider \<Rightarrow> transport \<Rightarrow> jsstring list \<Rightarrow> string
     \<Rightarrow> int \<Rightarrow> nat \<Rightarrow> json list \<Rightarrow> nat \<Rightarrow> event list
     \<Rightarrow> ((error + EmbeddingResponse) \<times> event list) option" where
  "cohere_loop INITIAL_RETRY_DELAY_MS p tr texts model i c allEmbeddings tot evs =
     (if i < int (length texts) then
        (let batch = js_slice texts i (i + batchSize p) in
         case embedCohereBatch INITIAL_RETRY_DELAY_MS p (tr c) c batch model of
           (Inl e, evs') \<Rightarrow> Some (Inl e, evs @ evs')
         | (Inr (embs, tokens), evs') \<Rightarrow>
             cohere_loop INITIAL_RETRY_DELAY_MS p tr texts model (i + batchSize p) (c + 1)
               (allEmbeddings @ embs) (tot + tokens) (evs @ evs'))
      else Some (Inr \<lparr> embeddings = allEmbeddings,
                       usage = \<lparr> promptTokens = tot, totalTokens = tot \<rparr> \<rparr>, evs))"

declare cohere_loop.simps [code]

definition processCohereEmbeddings ::
  "int \<Rightarrow> provider \<Rightarrow> transport \<Rightarrow> jsstring list \<Rightarrow> string
     \<Rightarrow> ((error + EmbeddingResponse) \<times> event list) option" where
  "processCohereEmbeddings INITIAL_RETRY_DELAY_MS p tr texts model =
     cohere_loop INITIAL_RETRY_DELAY_MS p tr texts model 0 0 [] 0 []"


section \<open>The semaphore\<close>

text \<open>
  The class \<^verbatim>\<open>Semaphore\<close>: the counter \<^verbatim>\<open>permits\<close> and the queue \<^verbatim>\<open>waiting\<close>,
  whose closures are named by the number of the body they will run. Three fields are
  bookkeeping for the proofs and are never read by the operations: \<open>running\<close> lists
  the bodies that were admitted and have not yet reached the \<^verbatim>\<open>finally\<close> block,
  \<open>enqueued\<close> and \<open>woken\<close> list, in order, the bodies that were pushed on the
  queue and those that were shifted off it.
\<close>

record Semaphore =
  permits :: int
  waiting :: "nat list"
  running :: "nat list"
  enqueued :: "nat list"
  woken :: "nat list"

definition new_Semaphore :: "int \<Rightarrow> Semaphore" where
  "new_Semaphore n = \<lparr> permits = n, waiting = [], running = [], enqueued = [], woken = [] \<rparr>"

text \<open>\<^verbatim>\<open>this.permits--\<close> followed by the call of \<^verbatim>\<open>fn\<close>, in either branch.\<close>

definition run_body :: "nat \<Rightarrow> Semaphore \<Rightarrow> Semaphore" where
  "run_body i s = s\<lparr> permits := permits s - 1, running := running s @ [i] \<rparr>"

text \<open>
  \<^verbatim>\<open>acquire(fn)\<close> up to its first suspension; the second component is the body
  that was started, if any.
\<close>

definition acquire :: "nat \<Rightarrow> Semaphore \<Rightarrow> Semaphore \<times> nat option" where
  "acquire i s =
     (if permits s > 0 then (run_body i s, Some i)
      else (s\<lparr> waiting := waiting s @ [i], enqueued := enqueued s @ [i] \<rparr>, None))"

text \<open>
  The \<^verbatim>\<open>finally\<close> block, the same text in both branches: return the permit and, if
  the queue is not empty, shift its head and call it, which takes a permit and starts
  that body before anything else can run.
\<close>

definition finally_block :: "Semaphore \<Rightarrow> Semaphore \<times> nat option" where
  "finally_block s =
     (let s1 = s\<lparr> permits := permits s + 1 \<rparr> in
      case waiting s1 of
        [] \<Rightarrow> (s1, None)
      | w # ws \<Rightarrow> (run_body w (s1\<lparr> waiting := ws, woken := woken s1 @ [w] \<rparr>), Some w))"

text \<open>
  The promise of body \<open>i\<close> settles, by returning or by throwing: control reaches the
  \<^verbatim>\<open>finally\<close> block on both paths.
\<close>

datatype body_result = Returned | Threw

definition settle :: "nat \<Rightarrow> body_result \<Rightarrow> Semaphore \<Rightarrow> Semaphore \<times> nat option" where
  "settle i r s =
     (if i \<in> set (running s) then
        (case r of
           Returned \<Rightarrow> finally_block (s\<lparr> running := remove1 i (running s) \<rparr>)
         | Threw \<Rightarrow> finally_block (s\<lparr> running := remove1 i (running s) \<rparr>))
      else (s, None))"

datatype gate_op = Acquire nat | Settle nat body_result

fun gate_step :: "Semaphore \<Rightarrow> gate_op \<Rightarrow> Semaphore" where
  "gate_step s (Acquire i) = fst (acquire i s)"
| "gate_step s (Settle i r) = fst (settle i r s)"

definition gate_run :: "int \<Rightarrow> gate_op list \<Rightarrow> Semaphore" where
  "gate_run n ops = foldl gate_step (new_Semaphore n) ops"

section \<open>Titan: the gated calls as a transition system\<close>

text \<open>
  \<^verbatim>\<open>processTitanEmbeddings\<close> starts one asynchronous task per text and joins them
  with \<^verbatim>\<open>Promise.all\<close>. JavaScript runs one continuation at a time; between two
  suspension points nothing else runs. A task is therefore in one of these states:
  \<^item> \<open>Queued\<close>: its closure sits in \<^verbatim>\<open>waiting\<close>;
  \<^item> \<open>Calling a\<close>: attempt \<open>a\<close> is with the transport (\<^verbatim>\<open>await this.client.send\<close>);
  \<^item> \<open>Sleeping a\<close>: attempt \<open>a\<close> was throttled and the backoff timer is pending;
  \<^item> \<open>Returning r\<close>: the body has returned or thrown \<open>r\<close> and the continuation of
    \<^verbatim>\<open>await fn()\<close>, that is the \<^verbatim>\<open>finally\<close> block, is pending;
  \<^item> \<open>Done r\<close>: the promise handed to \<^verbatim>\<open>Promise.all\<close> has settled with \<open>r\<close>.
\<close>

datatype task = Queued | Calling nat | Sleeping nat | Returning "error + json" | Done "error + json"

text \<open>
  The state of one \<^verbatim>\<open>processTitanEmbeddings\<close> invocation: its own semaphore
  (\<^verbatim>\<open>const semaphore = new Semaphore(...)\<close> is a local of the method), the tasks,
  the variable \<^verbatim>\<open>totalTokens\<close>, the first rejection seen by \<^verbatim>\<open>Promise.all\<close>,
  and the events so far.
\<close>

record titan_state =
  sem :: Semaphore
  tasks :: "task list"
  tokens :: nat
  rejected :: "error option"
  trace :: "event list"

text \<open>
  Body \<open>i\<close> runs up to its first suspension: \<^verbatim>\<open>embedTitanText\<close> builds the input
  and the retry loop either sends attempt 0 or, when \<^verbatim>\<open>maxRetries\<close> admits no
  attempt, falls through to the final \<^verbatim>\<open>throw\<close>.
\<close>

definition start_body :: "provider \<Rightarrow> string \<Rightarrow> jsstring list \<Rightarrow> nat \<Rightarrow> task \<times> event list" where
  "start_body p model texts i =
     (if 0 < maxRetries p then (Calling 0, [Send i 0 (titan_input model (texts ! i))])
      else (Returning (Inl (FailedMaxAttempts (maxRetries p))), []))"

definition launch :: "provider \<Rightarrow> string \<Rightarrow> jsstring list \<Rightarrow> nat option \<Rightarrow> titan_state \<Rightarrow> titan_state" where
  "launch p model texts started st =
     (case started of
        None \<Rightarrow> st
      | Some j \<Rightarrow>
          (let (t, evs) = start_body p model texts j
           in st\<lparr> tasks := (tasks st)[j := t], trace := trace st @ evs \<rparr>))"

definition titan_init :: "provider \<Rightarrow> titan_state" where
  "titan_init p =
     \<lparr> sem = new_Semaphore (maxConcurrency p), tasks = [], tokens = 0, rejected = None,
       trace = [] \<rparr>"

text \<open>One iteration of \<^verbatim>\<open>texts.map\<close>: the task for text \<open>i\<close> calls \<^verbatim>\<open>acquire\<close>.\<close>

definition spawn_one :: "provider \<Rightarrow> string \<Rightarrow> jsstring list \<Rightarrow> titan_state \<Rightarrow> nat \<Rightarrow> titan_state" where
  "spawn_one p model texts st i =
     (let st0 = st\<lparr> tasks := tasks st @ [Queued] \<rparr>;
          (s', started) = acquire i (sem st0)
      in launch p model texts started (st0\<lparr> sem := s' \<rparr>))"

definition titan_spawn :: "provider \<Rightarrow> string \<Rightarrow> jsstring list \<Rightarrow> titan_state" where
  "titan_spawn p model texts = foldl (spawn_one p model texts) (titan_init p) [0..<length texts]"

text \<open>
  The pending continuation of task \<open>i\<close> runs. For \<open>Calling\<close> this is the answer of
  the transport followed by the rest of the body; for \<open>Sleeping\<close> the timer; for
  \<open>Returning\<close> the \<^verbatim>\<open>finally\<close> block, which may start the head of the queue, and
  the settling of the task's promise. A task that is queued or done has no pending
  continuation and the step changes nothing.
\<close>

definition titan_step ::
  "int \<Rightarrow> provider \<Rightarrow> transport \<Rightarrow> string \<Rightarrow> jsstring list \<Rightarrow> titan_state \<Rightarrow> nat \<Rightarrow> titan_state" where
  "titan_step INITIAL_RETRY_DELAY_MS p tr model texts st i =
     (if i < length (tasks st) then
        (case tasks st ! i of
           Calling a \<Rightarrow>
             (case tr i a of
                Resolved r \<Rightarrow>
                  (case titan_decode (texts ! i) r of
                     Inl e \<Rightarrow> st\<lparr> tasks := (tasks st)[i := Returning (Inl e)] \<rparr>
                   | Inr (embedding, n) \<Rightarrow>
                       st\<lparr> tasks := (tasks st)[i := Returning (Inr embedding)],
                           tokens := tokens st + n \<rparr>)
              | Rejected err \<Rightarrow>
                  (case catch_block INITIAL_RETRY_DELAY_MS (maxRetries p) a err of
                     Retry delayMs \<Rightarrow>
                       st\<lparr> tasks := (tasks st)[i := Sleeping a],
                           trace := trace st @ [Delay i delayMs] \<rparr>
                   | Throw e \<Rightarrow> st\<lparr> tasks := (tasks st)[i := Returning (Inl e)] \<rparr>))
         | Sleeping a \<Rightarrow>
             (if int (a + 1) < maxRetries p then
                st\<lparr> tasks := (tasks st)[i := Calling (a + 1)],
                    trace := trace st @ [Send i (a + 1) (titan_input model (texts ! i))] \<rparr>
              else st\<lparr> tasks := (tasks st)[i := Returning (Inl (FailedMaxAttempts (maxRetries p)))] \<rparr>)
         | Returning r \<Rightarrow>
             (let (s', started) =
                    settle i (case r of Inl _ \<Rightarrow> Threw | Inr _ \<Rightarrow> Returned) (sem st);
                  st1 = st\<lparr> sem := s', tasks := (tasks st)[i := Done r],
                            rejected := (case rejected st of
                                           Some e \<Rightarrow> Some e
                                         | None \<Rightarrow> (case r of Inl e \<Rightarrow> Some e | Inr _ \<Rightarrow> None)) \<rparr>
              in launch p model texts started st1)
         | Queued \<Rightarrow> st
         | Done r \<Rightarrow> st)
      else st)"

text \<open>
  A schedule is the order in which pending continuations run: the completion order
  of the transport calls and timers, chosen by the environment.
\<close>

definition titan_run ::
  "int \<Rightarrow> provider \<Rightarrow> transport \<Rightarrow> string \<Rightarrow> jsstring list \<Rightarrow> nat list \<Rightarrow> titan_state" where
  "titan_run INITIAL_RETRY_DELAY_MS p tr model texts sched =
     foldl (titan_step INITIAL_RETRY_DELAY_MS p tr model texts) (titan_spawn p model texts) sched"

definition fulfilled :: "task \<Rightarrow> json option" where
  "fulfilled t = (case t of Done (Inr v) \<Rightarrow> Some v | _ \<Rightarrow> None)"

text \<open>
  \<^verbatim>\<open>await Promise.all(promises)\<close> and the rest of the method: rejected with the first
  rejection, fulfilled with the values in the order of the array once every promise
  is fulfilled, pending (\<open>None\<close>) otherwise.
\<close>

definition titan_result :: "titan_state \<Rightarrow> (error + EmbeddingResponse) option" where
  "titan_result st =
     (case rejected st of
        Some e \<Rightarrow> Some (Inl e)
      | None \<Rightarrow>
          (case those (map fulfilled (tasks st)) of
             None \<Rightarrow> None
           | Some results \<Rightarrow>
               Some (Inr \<lparr> embeddings = [] @ results,
                           usage = \<lparr> promptTokens = tokens st, totalTokens = tokens st \<rparr> \<rparr>)))"

definition processTitanEmbeddings ::
  "int \<Rightarrow> provider \<Rightarrow> transport \<Rightarrow> nat list \<Rightarrow> jsstring list \<Rightarrow> string
     \<Rightarrow> ((error + EmbeddingResponse) \<times> event list) option" where
  "processTitanEmbeddings INITIAL_RETRY_DELAY_MS p tr sched texts model =
     (let st = titan_run INITIAL_RETRY_DELAY_MS p tr model texts sched
      in map_option (\<lambda>r. (r, trace st)) (titan_result st))"

section \<open>createEmbeddings\<close>

text \<open>
  The result is \<open>None\<close> when the call has not settled: a Titan call whose schedule
  leaves promises pending, a Cohere loop that does not return. Otherwise it is the
  error thrown or the response, with the events of the run.
\<close>

text \<open>\<^verbatim>\<open>model || this.config.modelId\<close>: an absent or empty override is falsy.\<close>

definition effective_model :: "provider \<Rightarrow> string option \<Rightarrow> string" where
  "effective_model p model =
     (case model of
        None \<Rightarrow> p_modelId p
      | Some m \<Rightarrow> if m = [] then p_modelId p else m)"

text \<open>
  The branch bodies of \<^verbatim>\<open>createEmbeddings\<close> after the \<^verbatim>\<open>await\<close>: a thrown error
  propagates, the results are copied into the response.
\<close>

definition finish ::
  "(error + EmbeddingResponse) \<times> event list \<Rightarrow> (error + EmbeddingResponse) \<times> event list" where
  "finish x =
     (case x of
        (Inl e, evs) \<Rightarrow> (Inl e, evs)
      | (Inr results, evs) \<Rightarrow>
          (Inr \<lparr> embeddings = [] @ embeddings results,
                 usage = \<lparr> promptTokens = promptTokens (usage results),
                           totalTokens = totalTokens (usage results) \<rparr> \<rparr>, evs))"

definition createEmbeddings ::
  "int \<Rightarrow> provider \<Rightarrow> transport \<Rightarrow> nat list \<Rightarrow> jsstring list \<Rightarrow> string option
     \<Rightarrow> ((error + EmbeddingResponse) \<times> event list) option" where
  "createEmbeddings INITIAL_RETRY_DELAY_MS p tr sched texts model =
     (let modelToUse = effective_model p model
      in if isTitanModel modelToUse then
           map_option finish
             (processTitanEmbeddings INITIAL_RETRY_DELAY_MS p tr sched texts modelToUse)
         else if isCohereModel modelToUse then
           map_option finish
             (processCohereEmbeddings INITIAL_RETRY_DELAY_MS p tr texts modelToUse)
         else Some (Inl (UnsupportedModel modelToUse), []))"

section \<open>Several invocations on one engine\<close>

text \<open>
  An engine instance serves several \<^verbatim>\<open>createEmbeddings\<close> calls at once. Each call
  on the Titan path has its own \<open>titan_state\<close>, created by \<open>titan_spawn\<close>; invocation
  \<open>k\<close> talks to the transport through \<open>trs k\<close>.
\<close>

datatype engine_action = Invoke "jsstring list" | Resume nat nat

definition engine_step ::
  "int \<Rightarrow> provider \<Rightarrow> (nat \<Rightarrow> transport) \<Rightarrow> string
     \<Rightarrow> (jsstring list \<times> titan_state) list \<Rightarrow> engine_action \<Rightarrow> (jsstring list \<times> titan_state) list" where
  "engine_step INITIAL_RETRY_DELAY_MS p trs model eng act =
     (case act of
        Invoke texts \<Rightarrow> eng @ [(texts, titan_spawn p model texts)]
      | Resume k i \<Rightarrow>
          (if k < length eng then
             eng[k := (fst (eng ! k),
                       titan_step INITIAL_RETRY_DELAY_MS p (trs k) model (fst (eng ! k))
                         (snd (eng ! k)) i)]
           else eng))"

definition engine_run ::
  "int \<Rightarrow> provider \<Rightarrow> (nat \<Rightarrow> transport) \<Rightarrow> string \<Rightarrow> engine_action list
     \<Rightarrow> (jsstring list \<times> titan_state) list" where
  "engine_run INITIAL_RETRY_DELAY_MS p trs model acts =
     foldl (engine_step INITIAL_RETRY_DELAY_MS p trs model) [] acts"

definition is_calling :: "task \<Rightarrow> bool" where
  "is_calling t = (case t of Calling _ \<Rightarrow> True | _ \<Rightarrow> False)"

text \<open>The number of transport calls in flight, in one invocation and in an engine.\<close>

definition in_flight :: "titan_state \<Rightarrow> nat" where
  "in_flight st = length (filter is_calling (tasks st))"

definition engine_in_flight :: "(jsstring list \<times> titan_state) list \<Rightarrow> nat" where
  "engine_in_flight eng = sum_list (map (\<lambda>(texts, st). in_flight st) eng)"


section \<open>Error texts\<close>

function show_nat :: "nat \<Rightarrow> string" where
  "show_nat n =
     (if n < 10 then [''0123456789'' ! n]
      else show_nat (n div 10) @ [''0123456789'' ! (n mod 10)])"
  by pat_completeness auto
termination
  by (relation "measure id") auto

definition show_int :: "int \<Rightarrow> string" where
  "show_int i = (if i < 0 then ''-'' @ show_nat (nat (- i)) else show_nat (nat i))"

text \<open>\<open>contains s sub\<close>: the text \<open>sub\<close> occurs in \<open>s\<close>.\<close>

definition contains :: "string \<Rightarrow> string \<Rightarrow> bool" where
  "contains s sub = list_ex (\<lambda>i. take (length sub) (drop i s) = sub) [0..<Suc (length s)]"

text \<open>
  Modelled from the spec: \<^verbatim>\<open>formatEmbeddingError\<close> (in
  \<^verbatim>\<open>../shared/validation-helpers\<close>) and the translation catalogue behind \<^verbatim>\<open>t\<close>
  are not part of the sources at hand. The specification (section 7) classifies a
  raw failure by its status code (429, 401, 403), by a connection-failure test on the
  message, which it leaves open and which is the parameter \<open>connection\<close> here, and
  as generic otherwise; every terminal error gets a message template chosen by the
  class, always including the number of attempts, and the generic message includes
  the underlying error text or status code.
\<close>

datatype ErrorKind =
  Throttled | AuthenticationFailed | PermissionDenied | ConnectionFailed | GenericTransportError

definition classify :: "(string \<Rightarrow> bool) \<Rightarrow> HttpError \<Rightarrow> ErrorKind" where
  "classify connection e =
     (if status e = Some 429 then Throttled
      else if status e = Some 401 then AuthenticationFailed
      else if status e = Some 403 then PermissionDenied
      else if connection (message e) then ConnectionFailed
      else GenericTransportError)"

definition after_attempts :: "int \<Rightarrow> string" where
  "after_attempts n = ''Failed to create embeddings after '' @ show_int n @ '' attempts''"

definition formatEmbeddingError :: "(string \<Rightarrow> bool) \<Rightarrow> HttpError \<Rightarrow> int \<Rightarrow> string" where
  "formatEmbeddingError connection e n =
     (case classify connection e of
        AuthenticationFailed \<Rightarrow>
          after_attempts n @ '': Authentication failed. Please check your credentials.''
      | PermissionDenied \<Rightarrow>
          after_attempts n @ '': Permission denied. Please check your permissions.''
      | ConnectionFailed \<Rightarrow>
          after_attempts n @ '': Connection failed.''
      | _ \<Rightarrow>
          after_attempts n @ '': '' @
            (case status e of
               None \<Rightarrow> message e
             | Some code \<Rightarrow> ''HTTP '' @ show_int code @ '' - '' @ message e))"

text \<open>
  The message of each thrown value. The two \<^verbatim>\<open>Invalid ... response\<close> texts are
  literals of the source; the others go through the formatter and the catalogue and
  are modelled from the specification as above; for the engine's own
  \<^verbatim>\<open>SyntaxError\<close> and \<^verbatim>\<open>TypeError\<close> the class name stands for the text.
\<close>

definition error_message :: "(string \<Rightarrow> bool) \<Rightarrow> error \<Rightarrow> string" where
  "error_message connection err =
     (case err of
        UnsupportedModel m \<Rightarrow> ''Unsupported model: '' @ m
      | InvalidTitanResponse \<Rightarrow> ''Invalid Titan embedding response''
      | InvalidCohereResponse \<Rightarrow> ''Invalid Cohere embedding response''
      | FailedMaxAttempts n \<Rightarrow> after_attempts n
      | Formatted e n \<Rightarrow> formatEmbeddingError connection e n
      | SyntaxError \<Rightarrow> ''SyntaxError''
      | TypeError \<Rightarrow> ''TypeError'')"

section \<open>The token estimate of the specification\<close>

text \<open>
  The specification words the estimate as \<^verbatim>\<open>ceil(utf8_length(text)/4)\<close>. The
  length of the UTF-8 encoding of a sequence of UTF-16 code units: one byte below
  \<open>0x80\<close>, two below \<open>0x800\<close>, four for a surrogate pair, three for any other unit
  (an unpaired surrogate is encoded as the replacement character).
\<close>

definition unit_bytes :: "16 word \<Rightarrow> nat" where
  "unit_bytes u = (if u < 0x80 then 1 else if u < 0x800 then 2 else 3)"

definition high_surrogate :: "16 word \<Rightarrow> bool" where
  "high_surrogate u = (0xD800 \<le> u \<and> u \<le> 0xDBFF)"

definition low_surrogate :: "16 word \<Rightarrow> bool" where
  "low_surrogate u = (0xDC00 \<le> u \<and> u \<le> 0xDFFF)"

fun utf8_length :: "jsstring \<Rightarrow> nat" where
  "utf8_length [] = 0"
| "utf8_length [u] = unit_bytes u"
| "utf8_length (u # v # us) =
     (if high_surrogate u \<and> low_surrogate v then 4 + utf8_length us
      else unit_bytes u + utf8_length (v # us))"

definition spec_tokens :: "jsstring list \<Rightarrow> nat" where
  "spec_tokens texts = sum_list (map (\<lambda>text. (utf8_length text + 3) div 4) texts)"

text \<open>The estimate the code computes, summed over the texts.\<close>

definition code_tokens :: "jsstring list \<Rightarrow> nat" where
  "code_tokens texts = sum_list (map estimate_tokens texts)"

section \<open>Invariants and measures\<close>

text \<open>
  The invariant of a semaphore created with \<open>n\<close> permits: permits and admitted
  bodies add up to \<open>n\<close>; the counter does not go below zero when \<open>n\<close> is not
  negative, and nothing is admitted when it is; the queue holds exactly the bodies
  that were pushed and not yet shifted, in the order of their arrival; a body waits
  only while no permit is free.
\<close>

definition gate_inv :: "int \<Rightarrow> Semaphore \<Rightarrow> bool" where
  "gate_inv n s =
     (permits s + int (length (running s)) = n
      \<and> (0 \<le> n \<longrightarrow> 0 \<le> permits s)
      \<and> (n < 0 \<longrightarrow> running s = [])
      \<and> enqueued s = woken s @ waiting s
      \<and> (waiting s \<noteq> [] \<longrightarrow> permits s \<le> 0))"

text \<open>A task holds a permit from the start of its body to its \<^verbatim>\<open>finally\<close> block.\<close>

definition active :: "task \<Rightarrow> bool" where
  "active t = (case t of Calling _ \<Rightarrow> True | Sleeping _ \<Rightarrow> True | Returning _ \<Rightarrow> True | _ \<Rightarrow> False)"

definition titan_inv :: "int \<Rightarrow> titan_state \<Rightarrow> bool" where
  "titan_inv n st =
     (gate_inv n (sem st)
      \<and> distinct (running (sem st)) \<and> distinct (waiting (sem st))
      \<and> set (running (sem st)) = {i. i < length (tasks st) \<and> active (tasks st ! i)}
      \<and> set (waiting (sem st)) = {i. i < length (tasks st) \<and> tasks st ! i = Queued})"

text \<open>
  A bound on the continuations a task still has to run; every step that changes the
  state lowers the sum.
\<close>

definition weight :: "nat \<Rightarrow> task \<Rightarrow> nat" where
  "weight m t =
     (case t of
        Queued \<Rightarrow> 2 * m + 4
      | Calling a \<Rightarrow> 2 * (m - a) + 3
      | Sleeping a \<Rightarrow> 2 * (m - a) + 2
      | Returning _ \<Rightarrow> 1
      | Done _ \<Rightarrow> 0)"

definition remaining :: "provider \<Rightarrow> titan_state \<Rightarrow> nat" where
  "remaining p st = sum_list (map (weight (nat (maxRetries p))) (tasks st))"

definition is_done :: "task \<Rightarrow> bool" where
  "is_done t = (case t of Done _ \<Rightarrow> True | _ \<Rightarrow> False)"

text \<open>The tokens of a text are added when its body returns a vector.\<close>

definition earned :: "task \<Rightarrow> bool" where
  "earned t = (case t of Returning (Inr _) \<Rightarrow> True | Done (Inr _) \<Rightarrow> True | _ \<Rightarrow> False)"

definition earned_tokens :: "jsstring list \<Rightarrow> task list \<Rightarrow> nat" where
  "earned_tokens texts ts =
     (\<Sum>i<length ts. if earned (ts ! i) then estimate_tokens (texts ! i) else 0)"

definition tokens_inv :: "jsstring list \<Rightarrow> titan_state \<Rightarrow> bool" where
  "tokens_inv texts st =
     (tokens st = (\<Sum>i<length (tasks st). if earned (tasks st ! i) then estimate_tokens (texts ! i) else 0))"


text \<open>
  The state of a run in which every transport call is answered with a well-formed
  vector, \<open>vs ! i\<close> being the vector for text \<open>i\<close>: nothing was rejected, and a
  task is queued, in its first attempt, or holds its own vector.
\<close>

definition answered :: "json list \<Rightarrow> titan_state \<Rightarrow> bool" where
  "answered vs st =
     (rejected st = None
      \<and> (\<forall>i<length (tasks st).
            tasks st ! i = Queued \<or> tasks st ! i = Calling 0
            \<or> tasks st ! i = Returning (Inr (vs ! i)) \<or> tasks st ! i = Done (Inr (vs ! i))))"



text \<open>
  The events of a run in which no call is retried: exactly one request for every
  task that was started, carrying the text of that task.
\<close>

definition asked :: "string \<Rightarrow> jsstring list \<Rightarrow> titan_state \<Rightarrow> bool" where
  "asked model texts st =
     (set (trace st)
        = (\<lambda>i. Send i 0 (titan_input model (texts ! i)))
            ` {i. i < length (tasks st) \<and> tasks st ! i \<noteq> Queued}
      \<and> length (trace st) = card {i. i < length (tasks st) \<and> tasks st ! i \<noteq> Queued})"

section \<open>Scenarios\<close>

text \<open>Concrete providers, failures and transports for the examples below.\<close>

definition titan_provider :: provider where
  "titan_provider =
     \<lparr> p_modelId = ''amazon.titan-embed-text-v1'', inputType = None, batchSize = 32,
       maxConcurrency = 1, maxRetries = 3 \<rparr>"

definition silent :: transport where
  "silent c a = Resolved None"



definition cohere_provider :: provider where
  "cohere_provider =
     \<lparr> p_modelId = ''cohere.embed-english-v3'', inputType = None, batchSize = 2,
       maxConcurrency = 5, maxRetries = 3 \<rparr>"

definition no_vectors :: transport where
  "no_vectors c a = Resolved (Some (JObj [(''embeddings'', JArr [])]))"

definition generic_failure :: HttpError where
  "generic_failure = \<lparr> status = None, message = ''API connection failed'' \<rparr>"

definition always_failing :: transport where
  "always_failing c a = Rejected generic_failure"

definition never_connection :: "string \<Rightarrow> bool" where
  "never_connection s = False"

definition missing_field :: transport where
  "missing_field c a = Resolved (Some (JObj []))"

definition accented :: jsstring where
  "accented = [0xE9, 0xE9, 0xE9, 0xE9, 0xE9]"

definition one_vector :: transport where
  "one_vector c a = Resolved (Some (JObj [(''embeddings'', JArr [JArr [JNum 1]])]))"

definition two_vectors :: transport where
  "two_vectors c a = Resolved (Some (JObj [(''embedding'', JArr [JNum (int c)])]))"

definition wide_provider :: provider where
  "wide_provider =
     \<lparr> p_modelId = ''amazon.titan-embed-text-v1'', inputType = None, batchSize = 32,
       maxConcurrency = 2, maxRetries = 3 \<rparr>"

definition failing_second :: "nat \<Rightarrow> transport" where
  "failing_second k = (if k = 0 then silent else always_failing)"





definition chunk_vectors :: transport where
  "chunk_vectors c a =
     Resolved (Some (JObj [(''embeddings'',
        JArr (take 2 (drop (c * 2) [JArr [JNum 0], JArr [JNum 1], JArr [JNum 2]])))]))"

section \<open>The retry loop: properties\<close>

lemma loop_throttled:
  "(\<forall>i. a \<le> i \<and> i < a + k \<longrightarrow> (\<exists>e. send i = Rejected e \<and> status e = Some 429)) \<Longrightarrow>
   send (a + k) = Resolved r \<Longrightarrow> int (a + k) < M \<Longrightarrow>
   invokeModelLoop I M send c input a =
     (Inr r, concat (map (\<lambda>i. [Send c i input, Delay c (I * 2 ^ i)]) [a..<a + k])
             @ [Send c (a + k) input])"
proof (induction k arbitrary: a)
  case 0
  then show ?case by simp
next
  case (Suc k)
  have "a \<le> a \<and> a < a + Suc k" by simp
  with Suc.prems(1) obtain e where e: "send a = Rejected e" "status e = Some 429"
    by blast
  have more: "int a < M - 1" using Suc.prems(3) by simp
  have step: "invokeModelLoop I M send c input (Suc a) =
     (Inr r, concat (map (\<lambda>i. [Send c i input, Delay c (I * 2 ^ i)]) [Suc a..<Suc a + k])
             @ [Send c (Suc a + k) input])"
    using Suc.prems by (intro Suc.IH) auto
  have up: "[a..<a + Suc k] = a # [Suc a..<Suc a + k]"
    by (simp add: upt_conv_Cons)
  show ?case
    using e more step up by (simp add: catch_block_def)
qed

lemma transport_calls_backoff:
  "transport_calls (concat (map (\<lambda>i. [Send c i input, Delay c (f i)]) [a..<b]) @ [Send c n input])
     = Suc (b - a)"
  by (induction b) (auto simp: transport_calls_def is_send_def)

lemma delays_backoff:
  "delays (concat (map (\<lambda>i. [Send c i input, Delay c (f i)]) [a..<b]) @ [Send c n input])
     = map f [a..<b]"
  by (induction b) (auto simp: delays_def)

lemma loop_terminal:
  "int a < M \<Longrightarrow> send a = Rejected e \<Longrightarrow> status e \<noteq> Some 429 \<or> M = int a + 1 \<Longrightarrow>
   invokeModelLoop I M send c input a = (Inl (Formatted e M), [Send c a input])"
  by (auto simp add: catch_block_def)

text \<open>
  C2. If the transport answers attempts \<open>0..k-1\<close> of a logical call with a 429
  failure and attempt \<open>k\<close> with a response, where \<open>k \<le> maxRetries - 1\<close>, then the
  call makes exactly \<open>k + 1\<close> transport calls, awaits the delay
  \<open>INITIAL_RETRY_DELAY_MS * 2^i\<close> after failed attempt \<open>i\<close> and nothing else, and
  returns the response of attempt \<open>k\<close>.
\<close>

theorem throttled_then_success:
  assumes "\<forall>i<k. \<exists>e. send i = Rejected e \<and> status e = Some 429"
    and "send k = Resolved r"
    and "int k \<le> maxRetries p - 1"
  shows "invokeModelWithRetries INITIAL_RETRY_DELAY_MS p send c input =
           (Inr r, concat (map (\<lambda>i. [Send c i input, Delay c (INITIAL_RETRY_DELAY_MS * 2 ^ i)]) [0..<k])
                   @ [Send c k input])
         \<and> transport_calls (snd (invokeModelWithRetries INITIAL_RETRY_DELAY_MS p send c input)) = k + 1
         \<and> delays (snd (invokeModelWithRetries INITIAL_RETRY_DELAY_MS p send c input))
             = map (\<lambda>i. INITIAL_RETRY_DELAY_MS * 2 ^ i) [0..<k]"
proof -
  have run: "invokeModelLoop INITIAL_RETRY_DELAY_MS (maxRetries p) send c input 0 =
     (Inr r, concat (map (\<lambda>i. [Send c i input, Delay c (INITIAL_RETRY_DELAY_MS * 2 ^ i)]) [0..<0 + k])
             @ [Send c (0 + k) input])"
    using assms by (intro loop_throttled) auto
  show ?thesis
    unfolding invokeModelWithRetries_def using run
    by (simp add: transport_calls_backoff delays_backoff)
qed

text \<open>
  The scenario of the specification: two 429 failures, then a response, with
  \<open>maxRetries = 3\<close> and an initial delay of 500 ms.
\<close>

theorem throttled_then_success_witness:
  "invokeModelWithRetries 500
      \<lparr> p_modelId = ''amazon.titan-embed-text-v1'', inputType = None, batchSize = 32,
        maxConcurrency = 5, maxRetries = 3 \<rparr>
      (\<lambda>a. if a < 2 then Rejected \<lparr> status = Some 429, message = ''Too Many Requests'' \<rparr>
            else Resolved (Some JNull))
      0 (titan_input ''amazon.titan-embed-text-v1'' [])
    = (Inr (Some JNull),
       [Send 0 0 (titan_input ''amazon.titan-embed-text-v1'' []), Delay 0 500,
        Send 0 1 (titan_input ''amazon.titan-embed-text-v1'' []), Delay 0 1000,
        Send 0 2 (titan_input ''amazon.titan-embed-text-v1'' [])])"
  using throttled_then_success [of 2
      "\<lambda>a. if a < 2 then Rejected \<lparr> status = Some 429, message = ''Too Many Requests'' \<rparr>
            else Resolved (Some JNull)"
      "Some JNull"
      "\<lparr> p_modelId = ''amazon.titan-embed-text-v1'', inputType = None, batchSize = 32,
         maxConcurrency = 5, maxRetries = 3 \<rparr>"
      500 0 "titan_input ''amazon.titan-embed-text-v1'' []"]
  by (simp add: upt_rec numeral_2_eq_2)

text \<open>
  C5. A failure that is not a 429 is terminal where it occurs: the loop makes that
  one transport call, awaits no delay and throws the formatted error; in particular
  a call whose first attempt fails so has made exactly one transport call. With
  \<open>maxRetries = 1\<close> the same holds for a 429 failure.
\<close>

theorem non_throttling_failure_is_terminal:
  "(int a < maxRetries p \<and> send a = Rejected e \<and> status e \<noteq> Some 429 \<longrightarrow>
      invokeModelLoop INITIAL_RETRY_DELAY_MS (maxRetries p) send c input a
        = (Inl (Formatted e (maxRetries p)), [Send c a input]))
   \<and> (0 < maxRetries p \<and> send 0 = Rejected e \<and> status e \<noteq> Some 429 \<longrightarrow>
      invokeModelWithRetries INITIAL_RETRY_DELAY_MS p send c input
        = (Inl (Formatted e (maxRetries p)), [Send c 0 input])
      \<and> transport_calls (snd (invokeModelWithRetries INITIAL_RETRY_DELAY_MS p send c input)) = 1
      \<and> delays (snd (invokeModelWithRetries INITIAL_RETRY_DELAY_MS p send c input)) = [])
   \<and> (maxRetries p = 1 \<and> send 0 = Rejected e \<longrightarrow>
      invokeModelWithRetries INITIAL_RETRY_DELAY_MS p send c input
        = (Inl (Formatted e 1), [Send c 0 input])
      \<and> transport_calls (snd (invokeModelWithRetries INITIAL_RETRY_DELAY_MS p send c input)) = 1
      \<and> delays (snd (invokeModelWithRetries INITIAL_RETRY_DELAY_MS p send c input)) = [])"
proof -
  have L: "int b < maxRetries p \<Longrightarrow> send b = Rejected e
           \<Longrightarrow> status e \<noteq> Some 429 \<or> maxRetries p = int b + 1
           \<Longrightarrow> invokeModelLoop INITIAL_RETRY_DELAY_MS (maxRetries p) send c input b
                 = (Inl (Formatted e (maxRetries p)), [Send c b input])" for b
    by (rule loop_terminal)
  show ?thesis
    unfolding invokeModelWithRetries_def using L [of a] L [of 0]
    by (auto simp del: invokeModelLoop.simps
             simp add: transport_calls_def delays_def is_send_def)
qed

theorem non_throttling_failure_is_terminal_witness:
  "invokeModelWithRetries 500
      \<lparr> p_modelId = ''cohere.embed-english-v3'', inputType = None, batchSize = 32,
        maxConcurrency = 5, maxRetries = 3 \<rparr>
      (\<lambda>a. Rejected \<lparr> status = Some 500, message = ''Internal error'' \<rparr>)
      0 (titan_input ''m'' [])
    = (Inl (Formatted \<lparr> status = Some 500, message = ''Internal error'' \<rparr> 3),
       [Send 0 0 (titan_input ''m'' [])])
   \<and> invokeModelWithRetries 500
      \<lparr> p_modelId = ''cohere.embed-english-v3'', inputType = None, batchSize = 32,
        maxConcurrency = 5, maxRetries = 1 \<rparr>
      (\<lambda>a. Rejected \<lparr> status = Some 429, message = ''Too Many Requests'' \<rparr>)
      0 (titan_input ''m'' [])
    = (Inl (Formatted \<lparr> status = Some 429, message = ''Too Many Requests'' \<rparr> 1),
       [Send 0 0 (titan_input ''m'' [])])"
  using non_throttling_failure_is_terminal [of 0
      "\<lparr> p_modelId = ''cohere.embed-english-v3'', inputType = None, batchSize = 32,
         maxConcurrency = 5, maxRetries = 3 \<rparr>"
      "\<lambda>a. Rejected \<lparr> status = Some 500, message = ''Internal error'' \<rparr>"
      "\<lparr> status = Some 500, message = ''Internal error'' \<rparr>" 500 0 "titan_input ''m'' []"]
    non_throttling_failure_is_terminal [of 0
      "\<lparr> p_modelId = ''cohere.embed-english-v3'', inputType = None, batchSize = 32,
         maxConcurrency = 5, maxRetries = 1 \<rparr>"
      "\<lambda>a. Rejected \<lparr> status = Some 429, message = ''Too Many Requests'' \<rparr>"
      "\<lparr> status = Some 429, message = ''Too Many Requests'' \<rparr>" 500 0 "titan_input ''m'' []"]
  by simp

section \<open>The semaphore: properties\<close>

lemma new_Semaphore_inv: "gate_inv n (new_Semaphore n)"
  by (simp add: gate_inv_def new_Semaphore_def)

lemma acquire_inv: "gate_inv n s \<Longrightarrow> gate_inv n (fst (acquire i s))"
  by (auto simp: gate_inv_def acquire_def run_body_def)

lemma finally_block_inv:
  "permits s + int (length (running s)) + 1 = n \<Longrightarrow> (0 \<le> n \<longrightarrow> 0 \<le> permits s) \<Longrightarrow>
   enqueued s = woken s @ waiting s \<Longrightarrow> (waiting s \<noteq> [] \<longrightarrow> permits s \<le> 0) \<Longrightarrow> 0 \<le> n \<Longrightarrow>
   gate_inv n (fst (finally_block s))"
  by (auto simp: gate_inv_def finally_block_def run_body_def Let_def split: list.splits)

lemma settle_inv: "gate_inv n s \<Longrightarrow> gate_inv n (fst (settle i r s))"
proof (cases "i \<in> set (running s)")
  case False
  assume "gate_inv n s"
  with False show ?thesis by (simp add: settle_def)
next
  case True
  assume inv: "gate_inv n s"
  from True have ne: "running s \<noteq> []" by auto
  with inv have n0: "0 \<le> n" by (auto simp: gate_inv_def)
  from ne have pos: "0 < length (running s)" by simp
  from True have "length (remove1 i (running s)) = length (running s) - 1"
    by (simp add: length_remove1)
  with pos have len: "int (length (remove1 i (running s))) + 1 = int (length (running s))"
    by linarith
  let ?s = "s\<lparr> running := remove1 i (running s) \<rparr>"
  have "gate_inv n (fst (finally_block ?s))"
    using inv n0 len pos by (intro finally_block_inv) (auto simp: gate_inv_def)
  with True show ?thesis by (cases r) (simp_all add: settle_def)
qed

lemma gate_step_inv: "gate_inv n s \<Longrightarrow> gate_inv n (gate_step s op)"
  by (cases op) (simp_all add: acquire_inv settle_inv)

lemma gate_run_inv: "gate_inv n (gate_run n ops)"
  unfolding gate_run_def
  by (induction ops rule: rev_induct) (simp_all add: new_Semaphore_inv gate_step_inv)


lemma settle_effect:
  "i \<in> set (running s) \<Longrightarrow>
   (case waiting s of
      [] \<Rightarrow> settle i r s = (s\<lparr> running := remove1 i (running s), permits := permits s + 1 \<rparr>, None)
    | w # ws \<Rightarrow> settle i r s =
        (s\<lparr> running := remove1 i (running s) @ [w], waiting := ws, woken := woken s @ [w] \<rparr>, Some w))"
  by (cases r) (auto simp: settle_def finally_block_def run_body_def Let_def split: list.splits)

text \<open>
  C3. In every state that a semaphore created with \<open>n\<close> permits can reach by
  calls of \<^verbatim>\<open>acquire\<close> and by bodies returning or throwing, the number of admitted
  bodies is at most \<open>n\<close> (and zero when \<open>n\<close> is negative); the bodies shifted off
  the queue so far, followed by the queue, are the bodies in the order in which they
  were queued, and no permit is free while a body waits, so waiters are released
  first in, first out and a newcomer never overtakes them; and when a running body
  settles, by return or by exception alike, the permit comes back and exactly the
  head of the queue, if there is one, is woken and admitted.
\<close>

theorem gate_bounded_fifo:
  "int (length (running (gate_run n ops))) \<le> max 0 n
   \<and> enqueued (gate_run n ops) = woken (gate_run n ops) @ waiting (gate_run n ops)
   \<and> (waiting (gate_run n ops) \<noteq> [] \<longrightarrow> permits (gate_run n ops) \<le> 0)
   \<and> (\<forall>i r. i \<in> set (running (gate_run n ops)) \<longrightarrow>
        (case waiting (gate_run n ops) of
           [] \<Rightarrow> settle i r (gate_run n ops) =
                  ((gate_run n ops)\<lparr> running := remove1 i (running (gate_run n ops)),
                                     permits := permits (gate_run n ops) + 1 \<rparr>, None)
         | w # ws \<Rightarrow> settle i r (gate_run n ops) =
                  ((gate_run n ops)\<lparr> running := remove1 i (running (gate_run n ops)) @ [w],
                                     waiting := ws,
                                     woken := woken (gate_run n ops) @ [w] \<rparr>, Some w)))"
  using gate_run_inv [of n ops] settle_effect [of _ "gate_run n ops"]
  by (auto simp: gate_inv_def)

theorem gate_bounded_fifo_witness:
  "int (length (running (gate_run 1 [Acquire 0, Acquire 1, Acquire 2]))) \<le> 1
   \<and> settle 0 Threw (gate_run 1 [Acquire 0, Acquire 1, Acquire 2])
      = (\<lparr> permits = 0, waiting = [2], running = [1], enqueued = [1, 2], woken = [1] \<rparr>, Some 1)
   \<and> settle 0 Returned (gate_run 1 [Acquire 0, Acquire 1, Acquire 2])
      = (\<lparr> permits = 0, waiting = [2], running = [1], enqueued = [1, 2], woken = [1] \<rparr>, Some 1)"
  using gate_bounded_fifo [of 1 "[Acquire 0, Acquire 1, Acquire 2]"]
  by (simp add: gate_run_def new_Semaphore_def acquire_def run_body_def)

section \<open>Empty input\<close>

lemma titan_step_no_tasks: "tasks st = [] \<Longrightarrow> titan_step I p tr m texts st i = st"
  by (simp add: titan_step_def)

lemma titan_run_empty: "titan_run I p tr m [] sched = titan_init p"
  unfolding titan_run_def titan_spawn_def
  by (induction sched rule: rev_induct) (simp_all add: titan_step_no_tasks titan_init_def)

text \<open>
  C10. For the empty list of texts and a model of either family,
  \<^verbatim>\<open>createEmbeddings\<close> returns no embeddings and zero usage, and the run has no
  event at all, hence no transport call, whatever the schedule and the configuration.
\<close>

theorem empty_texts:
  assumes "isTitanModel (effective_model p model) \<or> isCohereModel (effective_model p model)"
  shows "createEmbeddings INITIAL_RETRY_DELAY_MS p tr sched [] model
           = Some (Inr \<lparr> embeddings = [], usage = \<lparr> promptTokens = 0, totalTokens = 0 \<rparr> \<rparr>, [])"
  using assms
  by (auto simp: createEmbeddings_def processTitanEmbeddings_def titan_run_empty titan_init_def
      titan_result_def processCohereEmbeddings_def cohere_loop.simps finish_def Let_def)

theorem empty_texts_witness:
  "isCohereModel (effective_model
      \<lparr> p_modelId = ''amazon.titan-embed-text-v1'', inputType = None, batchSize = 32,
        maxConcurrency = 5, maxRetries = 3 \<rparr> (Some ''cohere.embed-english-v3''))
   \<and> createEmbeddings 500
      \<lparr> p_modelId = ''amazon.titan-embed-text-v1'', inputType = None, batchSize = 32,
        maxConcurrency = 5, maxRetries = 3 \<rparr>
      (\<lambda>c a. Resolved None) [0, 1] [] (Some ''cohere.embed-english-v3'')
    = Some (Inr \<lparr> embeddings = [], usage = \<lparr> promptTokens = 0, totalTokens = 0 \<rparr> \<rparr>, [])"
proof -
  have h: "isCohereModel (effective_model
      \<lparr> p_modelId = ''amazon.titan-embed-text-v1'', inputType = None, batchSize = 32,
        maxConcurrency = 5, maxRetries = 3 \<rparr> (Some ''cohere.embed-english-v3''))"
    by (simp add: isCohereModel_def effective_model_def)
  from h empty_texts [of _ "Some ''cohere.embed-english-v3''" 500 "\<lambda>c a. Resolved None" "[0, 1]"]
  show ?thesis by blast
qed

section \<open>The gated calls: invariants\<close>

lemma start_body_active: "active (fst (start_body p m texts j))"
  by (simp add: start_body_def active_def)

lemma launch_sem [simp]: "sem (launch p m texts w st) = sem st"
  by (cases w) (simp_all add: launch_def split: prod.splits)

lemma launch_rejected [simp]: "rejected (launch p m texts w st) = rejected st"
  by (cases w) (simp_all add: launch_def split: prod.splits)

lemma launch_tokens [simp]: "tokens (launch p m texts w st) = tokens st"
  by (cases w) (simp_all add: launch_def split: prod.splits)

lemma launch_tasks:
  "tasks (launch p m texts w st) =
     (case w of None \<Rightarrow> tasks st | Some j \<Rightarrow> (tasks st)[j := fst (start_body p m texts j)])"
  by (cases w) (simp_all add: launch_def split: prod.splits)

lemma spawn_one_length:
  "length (tasks (spawn_one p m texts st i)) = Suc (length (tasks st))"
  by (simp add: spawn_one_def launch_tasks Let_def split: prod.splits option.splits)

lemma spawn_one_inv:
  assumes "titan_inv n st"
  shows "titan_inv n (spawn_one p m texts st (length (tasks st)))"
proof (cases "permits (sem st) > 0")
  case True
  let ?i = "length (tasks st)"
  let ?t = "fst (start_body p m texts ?i)"
  have sp: "spawn_one p m texts st ?i =
     launch p m texts (Some ?i) (st\<lparr> tasks := tasks st @ [Queued], sem := run_body ?i (sem st) \<rparr>)"
    using True by (simp add: spawn_one_def acquire_def)
  have g: "gate_inv n (run_body ?i (sem st))"
    using acquire_inv [of n "sem st" ?i] assms True by (simp add: titan_inv_def acquire_def)
  have act: "active ?t" by (rule start_body_active)
  then have nq: "?t \<noteq> Queued" by (auto simp: active_def)
  have notin: "?i \<notin> set (running (sem st))" using assms by (auto simp: titan_inv_def)
  have inv: "gate_inv n (sem st)" "distinct (running (sem st))" "distinct (waiting (sem st))"
    "set (running (sem st)) = {i. i < length (tasks st) \<and> active (tasks st ! i)}"
    "set (waiting (sem st)) = {i. i < length (tasks st) \<and> tasks st ! i = Queued}"
    using assms by (simp_all add: titan_inv_def)
  have tk: "tasks (spawn_one p m texts st ?i) = tasks st @ [?t]"
    unfolding sp by (simp add: launch_tasks)
  have sm: "sem (spawn_one p m texts st ?i) = run_body ?i (sem st)"
    unfolding sp by simp
  have r: "running (run_body ?i (sem st)) = running (sem st) @ [?i]"
    and w: "waiting (run_body ?i (sem st)) = waiting (sem st)"
    by (simp_all add: run_body_def)
  have A: "{i. i < length (tasks st @ [?t]) \<and> active ((tasks st @ [?t]) ! i)}
           = insert ?i {i. i < length (tasks st) \<and> active (tasks st ! i)}"
    using act by (auto simp: nth_append less_Suc_eq)
  have Q: "{i. i < length (tasks st @ [?t]) \<and> (tasks st @ [?t]) ! i = Queued}
           = {i. i < length (tasks st) \<and> tasks st ! i = Queued}"
    using nq by (auto simp: nth_append less_Suc_eq)
  show ?thesis
    unfolding titan_inv_def tk sm r w A Q using g inv notin by simp
next
  case False
  let ?i = "length (tasks st)"
  have sp: "spawn_one p m texts st ?i =
     st\<lparr> tasks := tasks st @ [Queued],
         sem := (sem st)\<lparr> waiting := waiting (sem st) @ [?i], enqueued := enqueued (sem st) @ [?i] \<rparr> \<rparr>"
    using False by (simp add: spawn_one_def acquire_def launch_def)
  have g: "gate_inv n ((sem st)\<lparr> waiting := waiting (sem st) @ [?i], enqueued := enqueued (sem st) @ [?i] \<rparr>)"
    using acquire_inv [of n "sem st" ?i] assms False by (simp add: titan_inv_def acquire_def)
  have notin: "?i \<notin> set (waiting (sem st))" using assms by (auto simp: titan_inv_def)
  have inv: "gate_inv n (sem st)" "distinct (running (sem st))" "distinct (waiting (sem st))"
    "set (running (sem st)) = {i. i < length (tasks st) \<and> active (tasks st ! i)}"
    "set (waiting (sem st)) = {i. i < length (tasks st) \<and> tasks st ! i = Queued}"
    using assms by (simp_all add: titan_inv_def)
  have A: "{i. i < Suc (length (tasks st)) \<and> active ((tasks st @ [Queued]) ! i)}
           = {i. i < length (tasks st) \<and> active (tasks st ! i)}"
    by (auto simp: nth_append less_Suc_eq active_def)
  have Q: "{i. i < Suc (length (tasks st)) \<and> (tasks st @ [Queued]) ! i = Queued}
           = insert ?i {i. i < length (tasks st) \<and> tasks st ! i = Queued}"
    by (auto simp: nth_append less_Suc_eq)
  show ?thesis
    unfolding sp titan_inv_def using g inv notin by (simp add: A Q)
qed

lemma titan_init_inv: "titan_inv (maxConcurrency p) (titan_init p)"
  by (simp add: titan_inv_def titan_init_def new_Semaphore_inv) (simp add: new_Semaphore_def)

lemma spawn_prefix:
  "titan_inv (maxConcurrency p) (foldl (spawn_one p m texts) (titan_init p) [0..<k])
   \<and> length (tasks (foldl (spawn_one p m texts) (titan_init p) [0..<k])) = k"
proof (induction k)
  case 0
  show ?case by (simp add: titan_init_inv) (simp add: titan_init_def)
next
  case (Suc k)
  then show ?case using spawn_one_inv [of "maxConcurrency p" "foldl (spawn_one p m texts) (titan_init p) [0..<k]" p m texts]
    by (simp add: spawn_one_length)
qed

lemma titan_spawn_inv: "titan_inv (maxConcurrency p) (titan_spawn p m texts)"
  and titan_spawn_length: "length (tasks (titan_spawn p m texts)) = length texts"
  unfolding titan_spawn_def using spawn_prefix [of p m texts "length texts"] by simp_all

lemma active_not_Queued: "active t \<Longrightarrow> t \<noteq> Queued"
  by (auto simp: active_def)

lemma titan_step_idle:
  "\<not> i < length (tasks st) \<or> tasks st ! i = Queued \<or> is_done (tasks st ! i)
   \<Longrightarrow> titan_step I p tr m texts st i = st"
  by (auto simp: titan_step_def is_done_def split: task.splits)

lemma titan_step_body:
  assumes "i < length (tasks st)" and "tasks st ! i = Calling a \<or> tasks st ! i = Sleeping a"
  shows "\<exists>t. active t \<and> tasks (titan_step I p tr m texts st i) = (tasks st)[i := t]
           \<and> sem (titan_step I p tr m texts st i) = sem st
           \<and> rejected (titan_step I p tr m texts st i) = rejected st"
proof -
  let ?st' = "titan_step I p tr m texts st i"
  have "active (tasks ?st' ! i) \<and> tasks ?st' = (tasks st)[i := tasks ?st' ! i]
        \<and> sem ?st' = sem st \<and> rejected ?st' = rejected st"
    using assms
    by (auto simp: titan_step_def active_def
             split: outcome.splits sum.splits retry_decision.splits prod.splits)
  then show ?thesis by blast
qed

lemma titan_step_returning:
  assumes "i < length (tasks st)" and "tasks st ! i = Returning r"
  shows "titan_step I p tr m texts st i =
           launch p m texts (snd (settle i (case r of Inl _ \<Rightarrow> Threw | Inr _ \<Rightarrow> Returned) (sem st)))
             (st\<lparr> sem := fst (settle i (case r of Inl _ \<Rightarrow> Threw | Inr _ \<Rightarrow> Returned) (sem st)),
                  tasks := (tasks st)[i := Done r],
                  rejected := (case rejected st of
                                 Some e \<Rightarrow> Some e
                               | None \<Rightarrow> (case r of Inl e \<Rightarrow> Some e | Inr _ \<Rightarrow> None)) \<rparr>)"
  using assms by (simp add: titan_step_def split: prod.splits)

lemma update_same_class:
  assumes "i < length xs" and "P (xs ! i) = P t"
  shows "{j. j < length (xs[i := t]) \<and> P (xs[i := t] ! j)} = {j. j < length xs \<and> P (xs ! j)}"
  using assms by (auto simp: nth_list_update)

lemma update_leaves_class:
  assumes "i < length xs" and "\<not> P t"
  shows "{j. j < length (xs[i := t]) \<and> P (xs[i := t] ! j)} = {j. j < length xs \<and> P (xs ! j)} - {i}"
  using assms by (auto simp: nth_list_update)

lemma update_enters_class:
  assumes "i < length xs" and "P t"
  shows "{j. j < length (xs[i := t]) \<and> P (xs[i := t] ! j)} = insert i {j. j < length xs \<and> P (xs ! j)}"
  using assms by (auto simp: nth_list_update)

lemma titan_step_inv:
  assumes inv: "titan_inv n st"
  shows "titan_inv n (titan_step I p tr m texts st i)"
proof -
  have g: "gate_inv n (sem st)" and dr: "distinct (running (sem st))"
    and dw: "distinct (waiting (sem st))"
    and R: "set (running (sem st)) = {i. i < length (tasks st) \<and> active (tasks st ! i)}"
    and W: "set (waiting (sem st)) = {i. i < length (tasks st) \<and> (\<lambda>t. t = Queued) (tasks st ! i)}"
    using inv by (simp_all add: titan_inv_def)
  consider (idle) "\<not> i < length (tasks st) \<or> tasks st ! i = Queued \<or> is_done (tasks st ! i)"
    | (body) a where "i < length (tasks st)" "tasks st ! i = Calling a \<or> tasks st ! i = Sleeping a"
    | (ret) r where "i < length (tasks st)" "tasks st ! i = Returning r"
    by (cases "tasks st ! i") (auto simp: is_done_def)
  then show ?thesis
  proof cases
    case idle
    then show ?thesis using inv by (simp add: titan_step_idle)
  next
    case body
    from titan_step_body [OF body, of I p tr m texts]
    obtain t where t: "active t" "tasks (titan_step I p tr m texts st i) = (tasks st)[i := t]"
      "sem (titan_step I p tr m texts st i) = sem st"
      by blast
    have old: "active (tasks st ! i)" using body(2) by (auto simp: active_def)
    have A: "{j. j < length ((tasks st)[i := t]) \<and> active ((tasks st)[i := t] ! j)}
             = {j. j < length (tasks st) \<and> active (tasks st ! j)}"
      using body(1) old t(1) by (intro update_same_class) simp_all
    have Q: "{j. j < length ((tasks st)[i := t]) \<and> (\<lambda>t. t = Queued) ((tasks st)[i := t] ! j)}
             = {j. j < length (tasks st) \<and> (\<lambda>t. t = Queued) (tasks st ! j)}"
      using body(1) old t(1) by (intro update_same_class) (auto simp: active_def)
    show ?thesis
      unfolding titan_inv_def t(2) t(3) using g dr dw R W A Q by simp
  next
    case ret
    let ?b = "case r of Inl _ \<Rightarrow> Threw | Inr _ \<Rightarrow> Returned"
    let ?st1 = "st\<lparr> sem := fst (settle i ?b (sem st)), tasks := (tasks st)[i := Done r],
                  rejected := (case rejected st of Some e \<Rightarrow> Some e
                               | None \<Rightarrow> (case r of Inl e \<Rightarrow> Some e | Inr _ \<Rightarrow> None)) \<rparr>"
    have step: "titan_step I p tr m texts st i = launch p m texts (snd (settle i ?b (sem st))) ?st1"
      by (rule titan_step_returning [OF ret])
    have iact: "active (tasks st ! i)" using ret(2) by (simp add: active_def)
    then have irun: "i \<in> set (running (sem st))" using R ret(1) by simp
    have g': "gate_inv n (fst (settle i ?b (sem st)))" using g by (rule settle_inv)
    have A1: "{j. j < length ((tasks st)[i := Done r]) \<and> active ((tasks st)[i := Done r] ! j)}
              = {j. j < length (tasks st) \<and> active (tasks st ! j)} - {i}"
      using ret(1) by (intro update_leaves_class) (simp_all add: active_def)
    have Q1: "{j. j < length ((tasks st)[i := Done r]) \<and> (\<lambda>t. t = Queued) ((tasks st)[i := Done r] ! j)}
              = {j. j < length (tasks st) \<and> (\<lambda>t. t = Queued) (tasks st ! j)}"
      using ret by (intro update_same_class) simp_all
    show ?thesis
    proof (cases "waiting (sem st)")
      case Nil
      have se: "settle i ?b (sem st) =
          ((sem st)\<lparr> running := remove1 i (running (sem st)), permits := permits (sem st) + 1 \<rparr>, None)"
        using settle_effect [OF irun, of ?b] Nil by simp
      have tk: "tasks (titan_step I p tr m texts st i) = (tasks st)[i := Done r]"
        unfolding step se by (simp add: launch_tasks)
      have sm: "sem (titan_step I p tr m texts st i) =
          (sem st)\<lparr> running := remove1 i (running (sem st)), permits := permits (sem st) + 1 \<rparr>"
        unfolding step se by simp
      have g2: "gate_inv n ((sem st)\<lparr> running := remove1 i (running (sem st)), permits := permits (sem st) + 1 \<rparr>)"
        using g' se by simp
      show ?thesis
        unfolding titan_inv_def tk sm using g2 dr dw R W A1 Q1
        by (simp add: set_remove1_eq)
    next
      case (Cons w ws)
      have se: "settle i ?b (sem st) =
          ((sem st)\<lparr> running := remove1 i (running (sem st)) @ [w], waiting := ws,
                     woken := woken (sem st) @ [w] \<rparr>, Some w)"
        using settle_effect [OF irun, of ?b] Cons by simp
      let ?t = "fst (start_body p m texts w)"
      have tact: "active ?t" by (rule start_body_active)
      have wq: "w < length (tasks st)" "tasks st ! w = Queued"
        using W Cons by auto
      have wi: "w \<noteq> i" using wq ret by auto
      have wnr: "w \<notin> set (running (sem st))" using R wq by (simp add: active_def)
      have wnws: "w \<notin> set ws" "distinct ws" using dw Cons by simp_all
      have tk: "tasks (titan_step I p tr m texts st i) = (tasks st)[i := Done r, w := ?t]"
        unfolding step se by (simp add: launch_tasks)
      have sm: "sem (titan_step I p tr m texts st i) =
          (sem st)\<lparr> running := remove1 i (running (sem st)) @ [w], waiting := ws,
                     woken := woken (sem st) @ [w] \<rparr>"
        unfolding step se by simp
      have g2: "gate_inv n ((sem st)\<lparr> running := remove1 i (running (sem st)) @ [w], waiting := ws,
                     woken := woken (sem st) @ [w] \<rparr>)"
        using g' se by simp
      have A2: "{j. j < length ((tasks st)[i := Done r, w := ?t]) \<and> active ((tasks st)[i := Done r, w := ?t] ! j)}
              = insert w ({j. j < length (tasks st) \<and> active (tasks st ! j)} - {i})"
        using update_enters_class [of w "(tasks st)[i := Done r]" active ?t] wq(1) tact A1 by simp
      have Q2: "{j. j < length ((tasks st)[i := Done r, w := ?t]) \<and> (\<lambda>t. t = Queued) ((tasks st)[i := Done r, w := ?t] ! j)}
              = {j. j < length (tasks st) \<and> (\<lambda>t. t = Queued) (tasks st ! j)} - {w}"
        using update_leaves_class [of w "(tasks st)[i := Done r]" "\<lambda>t. t = Queued" ?t] wq(1)
          active_not_Queued [OF tact] Q1 by simp
      have Wset: "set ws = set (waiting (sem st)) - {w}" using Cons wnws by auto
      show ?thesis
        unfolding titan_inv_def tk sm using g2 dr wnws wnr wq R W A2 Q2 Wset
        by (simp add: set_remove1_eq active_def)
    qed
  qed
qed

lemma titan_run_inv: "titan_inv (maxConcurrency p) (titan_run I p tr m texts sched)"
  unfolding titan_run_def
  by (induction sched rule: rev_induct) (simp_all add: titan_spawn_inv titan_step_inv)

lemma titan_step_length: "length (tasks (titan_step I p tr m texts st i)) = length (tasks st)"
  by (auto simp: titan_step_def launch_tasks
      split: task.splits outcome.splits sum.splits retry_decision.splits prod.splits option.splits)

lemma titan_run_length: "length (tasks (titan_run I p tr m texts sched)) = length texts"
  unfolding titan_run_def
  by (induction sched rule: rev_induct) (simp_all add: titan_spawn_length titan_step_length)



section \<open>One gate per invocation\<close>







text \<open>
  An invocation counts for as long as it sends. With \<^verbatim>\<open>maxConcurrency = 1\<close>, let
  one invocation wait for the answer to its only text and let another fail on its
  first text: the request for its second text, which was queued, is then sent. Two
  calls are in flight although only one invocation is still pending for its caller.
\<close>

lemma failed_invocation_still_sends:
  "titan_result (snd (engine_run 500 titan_provider failing_second ''amazon.titan-embed-text-v1''
       [Invoke [[97]], Invoke [[98], [99]], Resume 1 0, Resume 1 0] ! 0)) = None
   \<and> titan_result (snd (engine_run 500 titan_provider failing_second ''amazon.titan-embed-text-v1''
       [Invoke [[97]], Invoke [[98], [99]], Resume 1 0, Resume 1 0] ! 1))
       = Some (Inl (Formatted generic_failure 3))
   \<and> engine_in_flight (engine_run 500 titan_provider failing_second ''amazon.titan-embed-text-v1''
       [Invoke [[97]], Invoke [[98], [99]], Resume 1 0, Resume 1 0]) = 2"
  by code_simp


section \<open>Failures of a logical call\<close>

lemma families_disjoint: "isCohereModel m \<Longrightarrow> \<not> isTitanModel m"
  by (cases m) (auto simp: isTitanModel_def isCohereModel_def)

lemma invoke_first_success:
  "0 < maxRetries p \<Longrightarrow> send 0 = Resolved r \<Longrightarrow>
   invokeModelWithRetries I p send c input = (Inr r, [Send c 0 input])"
  by (simp add: invokeModelWithRetries_def)

lemma invoke_first_terminal:
  "0 < maxRetries p \<Longrightarrow> send 0 = Rejected e \<Longrightarrow> status e \<noteq> Some 429 \<Longrightarrow>
   invokeModelWithRetries I p send c input = (Inl (Formatted e (maxRetries p)), [Send c 0 input])"
  unfolding invokeModelWithRetries_def by (rule loop_terminal) simp_all

lemma cohere_loop_failure:
  "i < int (length texts) \<Longrightarrow>
   embedCohereBatch I p (tr c) c (js_slice texts i (i + batchSize p)) m = (Inl e, evs') \<Longrightarrow>
   cohere_loop I p tr texts m i c acc tot evs = Some (Inl e, evs @ evs')"
  by (subst cohere_loop.simps) simp

lemma cohere_loop_success_step:
  "i < int (length texts) \<Longrightarrow>
   embedCohereBatch I p (tr c) c (js_slice texts i (i + batchSize p)) m = (Inr (embs, n), evs') \<Longrightarrow>
   cohere_loop I p tr texts m i c acc tot evs =
     cohere_loop I p tr texts m (i + batchSize p) (c + 1) (acc @ embs) (tot + n) (evs @ evs')"
  by (subst cohere_loop.simps) simp

lemma cohere_loop_exit:
  "\<not> i < int (length texts) \<Longrightarrow>
   cohere_loop I p tr texts m i c acc tot evs =
     Some (Inr \<lparr> embeddings = acc, usage = \<lparr> promptTokens = tot, totalTokens = tot \<rparr> \<rparr>, evs)"
  by (subst cohere_loop.simps) simp

lemma embedCohereBatch_malformed:
  assumes "0 < maxRetries p" and "send 0 = Resolved (Some j)"
    and "get_property j ''embeddings'' = Inr v" and "\<forall>vs. v \<noteq> Some (JArr vs)"
  shows "embedCohereBatch I p send c batch m = (Inl InvalidCohereResponse, [Send c 0 (cohere_input p m batch)])"
proof -
  have "cohere_decode batch (Some j) = Inl InvalidCohereResponse"
    using assms(3,4) by (auto simp: cohere_decode_def JSON_parse_def split: option.splits json.splits)
  then show ?thesis
    using assms(1,2) invoke_first_success [of p send "Some j" I c "cohere_input p m batch"]
    by (simp add: embedCohereBatch_def)
qed

text \<open>
  C7, as the code has it. \<^verbatim>\<open>embedCohereBatch\<close> only tests \<^verbatim>\<open>Array.isArray\<close> on
  the member \<^verbatim>\<open>embeddings\<close>. If the first attempt for chunk \<open>c\<close> is answered with a
  payload that parses to a value other than \<^verbatim>\<open>null\<close> whose member \<^verbatim>\<open>embeddings\<close> is
  absent or not an array, the loop ends at that chunk with the error
  \<^verbatim>\<open>Invalid Cohere embedding response\<close> after exactly one transport call for the
  chunk and without retry; for the first chunk this is the whole run of
  \<^verbatim>\<open>createEmbeddings\<close>.
\<close>

theorem malformed_cohere_payload:
  assumes "0 < maxRetries p" and "tr c 0 = Resolved (Some j)"
    and "get_property j ''embeddings'' = Inr v" and "\<forall>vs. v \<noteq> Some (JArr vs)"
  shows "(i < int (length texts) \<longrightarrow>
            cohere_loop INITIAL_RETRY_DELAY_MS p tr texts m i c acc tot evs
              = Some (Inl InvalidCohereResponse,
                      evs @ [Send c 0 (cohere_input p m (js_slice texts i (i + batchSize p)))]))
         \<and> (c = 0 \<and> texts \<noteq> [] \<and> isCohereModel (effective_model p model) \<longrightarrow>
            createEmbeddings INITIAL_RETRY_DELAY_MS p tr sched texts model
              = Some (Inl InvalidCohereResponse,
                      [Send 0 0 (cohere_input p (effective_model p model)
                                   (js_slice texts 0 (0 + batchSize p)))]))
         \<and> error_message connection InvalidCohereResponse = ''Invalid Cohere embedding response''"
proof -
  have loop: "cohere_loop INITIAL_RETRY_DELAY_MS p tr texts m' i' c acc' tot' evs'
              = Some (Inl InvalidCohereResponse,
                      evs' @ [Send c 0 (cohere_input p m' (js_slice texts i' (i' + batchSize p)))])"
    if "i' < int (length texts)" for m' i' acc' tot' evs'
    using that assms
      embedCohereBatch_malformed [of p "tr c" j v INITIAL_RETRY_DELAY_MS c
        "js_slice texts i' (i' + batchSize p)" m']
    by (intro cohere_loop_failure) simp_all
  have first: "createEmbeddings INITIAL_RETRY_DELAY_MS p tr sched texts model
              = Some (Inl InvalidCohereResponse,
                      [Send 0 0 (cohere_input p (effective_model p model)
                                   (js_slice texts 0 (0 + batchSize p)))])"
    if "c = 0" "texts \<noteq> []" "isCohereModel (effective_model p model)"
    using that loop [of 0 "effective_model p model" "[]" 0 "[]"] families_disjoint
    by (simp add: createEmbeddings_def processCohereEmbeddings_def finish_def Let_def)
  show ?thesis using loop first by (simp add: error_message_def)
qed

text \<open>
  One text, and a response whose \<^verbatim>\<open>embeddings\<close> array is empty: the length does not
  match the chunk, yet the call succeeds and returns no vector.
\<close>

theorem malformed_cohere_payload_counterexample:
  "createEmbeddings 500 cohere_provider no_vectors [] [[97]] None
     = Some (Inr \<lparr> embeddings = [], usage = \<lparr> promptTokens = 1, totalTokens = 1 \<rparr> \<rparr>,
             [Send 0 0 (cohere_input cohere_provider ''cohere.embed-english-v3'' [[97]])])"
  by (simp add: createEmbeddings_def effective_model_def cohere_provider_def isTitanModel_def
      isCohereModel_def processCohereEmbeddings_def cohere_loop.simps embedCohereBatch_def
      invokeModelWithRetries_def no_vectors_def cohere_decode_def JSON_parse_def js_slice_def
      estimate_tokens_def finish_def cohere_input_def)

lemma rejected_sticks:
  assumes "rejected st = Some e"
  shows "rejected (titan_step I p tr m texts st i) = Some e"
proof -
  consider (idle) "\<not> i < length (tasks st) \<or> tasks st ! i = Queued \<or> is_done (tasks st ! i)"
    | (body) a where "i < length (tasks st)" "tasks st ! i = Calling a \<or> tasks st ! i = Sleeping a"
    | (ret) r where "i < length (tasks st)" "tasks st ! i = Returning r"
    by (cases "tasks st ! i") (auto simp: is_done_def)
  then show ?thesis
  proof cases
    case idle
    then show ?thesis using assms by (simp add: titan_step_idle)
  next
    case body
    from titan_step_body [OF body, of I p tr m texts] show ?thesis using assms by auto
  next
    case ret
    show ?thesis unfolding titan_step_returning [OF ret] using assms by simp
  qed
qed

lemma rejected_sticks_run:
  "rejected st = Some e \<Longrightarrow> rejected (foldl (titan_step I p tr m texts) st sched) = Some e"
  by (induction sched arbitrary: st) (simp_all add: rejected_sticks)

lemma contains_middle: "contains (pre @ sub @ post) sub"
proof -
  have "take (length sub) (drop (length pre) (pre @ sub @ post)) = sub" by simp
  moreover have "length pre \<in> set [0..<Suc (length (pre @ sub @ post))]" by simp
  ultimately show ?thesis unfolding contains_def list_ex_iff by blast
qed

lemma show_int_3: "show_int 3 = ''3''"
  by (simp add: show_int_def)

lemma generic_message:
  assumes "classify connection e = GenericTransportError"
  shows "contains (error_message connection (Formatted e 3)) ''3 attempts''"
    and "contains (error_message connection (Formatted e 3)) (message e)"
proof -
  let ?tail = "case status e of None \<Rightarrow> message e
               | Some code \<Rightarrow> ''HTTP '' @ show_int code @ '' - '' @ message e"
  have msg: "error_message connection (Formatted e 3)
             = ''Failed to create embeddings after '' @ ''3 attempts'' @ ('': '' @ ?tail)"
    using assms by (simp add: error_message_def formatEmbeddingError_def after_attempts_def show_int_3)
  show "contains (error_message connection (Formatted e 3)) ''3 attempts''"
    unfolding msg by (rule contains_middle)
  show "contains (error_message connection (Formatted e 3)) (message e)"
  proof (cases "status e")
    case None
    have "error_message connection (Formatted e 3)
          = ''Failed to create embeddings after 3 attempts: '' @ message e @ []"
      unfolding msg using None by simp
    then show ?thesis using contains_middle [of "''Failed to create embeddings after 3 attempts: ''" "message e" "[]"]
      by simp
  next
    case (Some code)
    have "error_message connection (Formatted e 3)
          = (''Failed to create embeddings after 3 attempts: HTTP '' @ show_int code @ '' - '') @ message e @ []"
      unfolding msg using Some by simp
    then show ?thesis
      using contains_middle [of "''Failed to create embeddings after 3 attempts: HTTP '' @ show_int code @ '' - ''" "message e" "[]"]
      by simp
  qed
qed

lemma generic_not_throttled: "classify connection e = GenericTransportError \<Longrightarrow> status e \<noteq> Some 429"
  by (auto simp: classify_def split: if_splits)

lemma titan_spawn_single:
  assumes "0 < maxConcurrency p" and "0 < maxRetries p"
  shows "titan_spawn p m [t] =
     \<lparr> sem = run_body 0 (new_Semaphore (maxConcurrency p)), tasks = [Calling 0], tokens = 0,
       rejected = None, trace = [Send 0 0 (titan_input m t)] \<rparr>"
proof -
  have a: "acquire 0 (new_Semaphore (maxConcurrency p)) = (run_body 0 (new_Semaphore (maxConcurrency p)), Some 0)"
    using assms(1) by (simp add: acquire_def new_Semaphore_def)
  have b: "start_body p m [t] 0 = (Calling 0, [Send 0 0 (titan_input m t)])"
    using assms(2) by (simp add: start_body_def)
  have "titan_spawn p m [t] = spawn_one p m [t] (titan_init p) 0"
    by (simp add: titan_spawn_def)
  also have "\<dots> = \<lparr> sem = run_body 0 (new_Semaphore (maxConcurrency p)), tasks = [Calling 0], tokens = 0,
       rejected = None, trace = [Send 0 0 (titan_input m t)] \<rparr>"
    by (simp add: spawn_one_def titan_init_def a launch_def b)
  finally show ?thesis .
qed

lemma lone_calling_step:
  assumes "tasks st = [Calling 0]" and "tr 0 0 = Rejected e" and "status e \<noteq> Some 429"
  shows "titan_step I p tr m [t] st i =
           (if i = 0 then st\<lparr> tasks := [Returning (Inl (Formatted e (maxRetries p)))] \<rparr> else st)"
proof (cases i)
  case 0
  have c: "catch_block I (maxRetries p) 0 e = Throw (Formatted e (maxRetries p))"
    using assms(3) by (simp add: catch_block_def)
  have l: "0 < length (tasks st)" and n: "tasks st ! 0 = Calling 0" using assms(1) by simp_all
  show ?thesis unfolding 0 titan_step_def using l n assms(1,2) c by simp
next
  case (Suc k)
  have "\<not> Suc k < length (tasks st)" using assms(1) by simp
  then show ?thesis using Suc by (simp add: titan_step_idle)
qed

lemma lone_no_waiting:
  assumes "tasks st = [t0]" and "t0 \<noteq> Queued" and "titan_inv n st"
  shows "waiting (sem st) = []"
proof -
  have W: "set (waiting (sem st)) = {i. i < length (tasks st) \<and> tasks st ! i = Queued}"
    using assms(3) unfolding titan_inv_def by blast
  have "{i. i < length [t0] \<and> [t0] ! i = Queued} = {}"
    using assms(2) by (auto simp: less_Suc_eq)
  then have "set (waiting (sem st)) = {}" unfolding W assms(1) .
  then show ?thesis by simp
qed

lemma lone_running:
  assumes "tasks st = [t0]" and "active t0" and "titan_inv n st"
  shows "0 \<in> set (running (sem st))"
proof -
  have R: "set (running (sem st)) = {i. i < length (tasks st) \<and> active (tasks st ! i)}"
    using assms(3) unfolding titan_inv_def by blast
  have "0 \<in> {i. i < length [t0] \<and> active ([t0] ! i)}"
    using assms(2) by simp
  then show ?thesis unfolding R assms(1) .
qed

lemma lone_returning_zero:
  assumes "tasks st = [Returning (Inl x)]" and "titan_inv n st"
  shows "titan_step I p tr m [t] st 0 =
           st\<lparr> sem := fst (settle 0 Threw (sem st)), tasks := [Done (Inl x)],
                rejected := (case rejected st of Some e \<Rightarrow> Some e | None \<Rightarrow> Some x) \<rparr>"
proof -
  have w: "waiting (sem st) = []"
    using assms by (intro lone_no_waiting [of st "Returning (Inl x)" n]) simp_all
  have r: "0 \<in> set (running (sem st))"
    using assms by (intro lone_running [of st "Returning (Inl x)" n]) (simp_all add: active_def)
  have se: "snd (settle 0 Threw (sem st)) = None"
    using settle_effect [OF r, of Threw] w by simp
  have l: "0 < length (tasks st)" and n: "tasks st ! 0 = Returning (Inl x)" using assms(1) by simp_all
  have "titan_step I p tr m [t] st 0 =
          launch p m [t] None
             (st\<lparr> sem := fst (settle 0 Threw (sem st)),
                  tasks := (tasks st)[0 := Done (Inl x)],
                  rejected := (case rejected st of Some e \<Rightarrow> Some e | None \<Rightarrow> Some x) \<rparr>)"
    unfolding titan_step_returning [OF l n] using se by (cases "rejected st") simp_all
  also have "\<dots> = st\<lparr> sem := fst (settle 0 Threw (sem st)), tasks := (tasks st)[0 := Done (Inl x)],
                rejected := (case rejected st of Some e \<Rightarrow> Some e | None \<Rightarrow> Some x) \<rparr>"
    by (simp add: launch_def)
  also have "(tasks st)[0 := Done (Inl x)] = [Done (Inl x)]" unfolding assms(1) by simp
  finally show ?thesis .
qed

lemma lone_returning_step:
  assumes "tasks st = [Returning (Inl x)]" and "titan_inv n st"
  shows "titan_step I p tr m [t] st i =
           (if i = 0 then st\<lparr> sem := fst (settle 0 Threw (sem st)), tasks := [Done (Inl x)],
                                rejected := (case rejected st of Some e \<Rightarrow> Some e | None \<Rightarrow> Some x) \<rparr>
            else st)"
proof (cases i)
  case 0
  then show ?thesis using lone_returning_zero [OF assms] by simp
next
  case (Suc k)
  have "\<not> Suc k < length (tasks st)" using assms(1) by simp
  then show ?thesis using Suc by (simp add: titan_step_idle)
qed

lemma lone_done_step:
  assumes "tasks st = [Done x]"
  shows "titan_step I p tr m [t] st i = st"
proof (cases i)
  case 0
  then show ?thesis using assms by (intro titan_step_idle) (simp add: is_done_def)
next
  case (Suc k)
  then show ?thesis using assms by (intro titan_step_idle) simp
qed

lemma lone_failure_step:
  assumes tr: "tr 0 0 = Rejected e" and s: "status e \<noteq> Some 429"
    and inv: "titan_inv n st"
    and J: "trace st = evs \<and>
         ((tasks st = [Calling 0] \<or> tasks st = [Returning (Inl (Formatted e (maxRetries p)))])
             \<and> rejected st = None
          \<or> tasks st = [Done (Inl (Formatted e (maxRetries p)))]
             \<and> rejected st = Some (Formatted e (maxRetries p)))"
  shows "trace (titan_step I p tr m [t] st i) = evs \<and>
         ((tasks (titan_step I p tr m [t] st i) = [Calling 0]
           \<or> tasks (titan_step I p tr m [t] st i) = [Returning (Inl (Formatted e (maxRetries p)))])
             \<and> rejected (titan_step I p tr m [t] st i) = None
          \<or> tasks (titan_step I p tr m [t] st i) = [Done (Inl (Formatted e (maxRetries p)))]
             \<and> rejected (titan_step I p tr m [t] st i) = Some (Formatted e (maxRetries p)))"
proof -
  have tr_st: "trace st = evs" using J by (rule conjunct1)
  have "(tasks st = [Calling 0] \<and> rejected st = None)
        \<or> (tasks st = [Returning (Inl (Formatted e (maxRetries p)))] \<and> rejected st = None)
        \<or> (tasks st = [Done (Inl (Formatted e (maxRetries p)))]
            \<and> rejected st = Some (Formatted e (maxRetries p)))"
    using J by (elim conjE disjE) simp_all
  then show ?thesis
  proof (elim disjE conjE)
    assume a: "tasks st = [Calling 0]" "rejected st = None"
    show ?thesis
      unfolding lone_calling_step [where tr = tr, OF a(1) tr s] using a tr_st by simp
  next
    assume a: "tasks st = [Returning (Inl (Formatted e (maxRetries p)))]" "rejected st = None"
    show ?thesis
      unfolding lone_returning_step [OF a(1) inv] using a tr_st by simp
  next
    assume a: "tasks st = [Done (Inl (Formatted e (maxRetries p)))]"
      "rejected st = Some (Formatted e (maxRetries p))"
    show ?thesis
      unfolding lone_done_step [OF a(1)] using a tr_st by simp
  qed
qed

lemma lone_failure_states:
  assumes P: "0 < maxConcurrency p" and M: "0 < maxRetries p"
    and tr: "\<forall>a. tr 0 a = Rejected e" and s: "status e \<noteq> Some 429"
  shows "trace (titan_run I p tr m [t] sched) = [Send 0 0 (titan_input m t)]
         \<and> ((tasks (titan_run I p tr m [t] sched) = [Calling 0]
              \<or> tasks (titan_run I p tr m [t] sched) = [Returning (Inl (Formatted e (maxRetries p)))])
             \<and> rejected (titan_run I p tr m [t] sched) = None
            \<or> tasks (titan_run I p tr m [t] sched) = [Done (Inl (Formatted e (maxRetries p)))]
             \<and> rejected (titan_run I p tr m [t] sched) = Some (Formatted e (maxRetries p)))"
proof (induction sched rule: rev_induct)
  case Nil
  show ?case
    by (simp add: titan_run_def titan_spawn_single [OF P M])
next
  case (snoc i sched)
  have run: "titan_run I p tr m [t] (sched @ [i]) = titan_step I p tr m [t] (titan_run I p tr m [t] sched) i"
    by (simp add: titan_run_def)
  show ?case
    unfolding run
    using tr by (intro lone_failure_step [OF _ s titan_run_inv snoc]) simp
qed

lemma lone_failure_result:
  assumes P: "0 < maxConcurrency p" and M: "0 < maxRetries p"
    and tr: "\<forall>a. tr 0 a = Rejected e" and s: "status e \<noteq> Some 429"
  shows "processTitanEmbeddings I p tr sched [t] m = None
         \<or> processTitanEmbeddings I p tr sched [t] m
             = Some (Inl (Formatted e (maxRetries p)), [Send 0 0 (titan_input m t)])"
    and "processTitanEmbeddings I p tr (0 # 0 # sched) [t] m
             = Some (Inl (Formatted e (maxRetries p)), [Send 0 0 (titan_input m t)])"
proof -
  let ?F = "Formatted e (maxRetries p)"
  have states: "trace (titan_run I p tr m [t] sc) = [Send 0 0 (titan_input m t)]
         \<and> ((tasks (titan_run I p tr m [t] sc) = [Calling 0]
              \<or> tasks (titan_run I p tr m [t] sc) = [Returning (Inl ?F)])
             \<and> rejected (titan_run I p tr m [t] sc) = None
            \<or> tasks (titan_run I p tr m [t] sc) = [Done (Inl ?F)]
             \<and> rejected (titan_run I p tr m [t] sc) = Some ?F)" for sc
    by (rule lone_failure_states [where tr = tr, OF P M tr s])
  have res: "processTitanEmbeddings I p tr sc [t] m = None
         \<or> processTitanEmbeddings I p tr sc [t] m = Some (Inl ?F, [Send 0 0 (titan_input m t)])" for sc
    using states [of sc]
    by (elim conjE disjE)
       (simp_all add: processTitanEmbeddings_def titan_result_def fulfilled_def Let_def)
  show "processTitanEmbeddings I p tr sched [t] m = None
         \<or> processTitanEmbeddings I p tr sched [t] m = Some (Inl ?F, [Send 0 0 (titan_input m t)])"
    by (rule res)
  let ?s0 = "titan_spawn p m [t]"
  have t0: "tasks ?s0 = [Calling 0]" by (simp add: titan_spawn_single [OF P M])
  have tr0: "tr 0 0 = Rejected e" using tr by simp
  let ?s1 = "titan_step I p tr m [t] ?s0 0"
  have s1: "?s1 = ?s0\<lparr> tasks := [Returning (Inl ?F)] \<rparr>"
    using lone_calling_step [where tr = tr, OF t0 tr0 s, of I p m t 0] by simp
  have t1: "tasks ?s1 = [Returning (Inl ?F)]" unfolding s1 by simp
  have inv1: "titan_inv (maxConcurrency p) ?s1"
    by (intro titan_step_inv titan_spawn_inv)
  let ?s2 = "titan_step I p tr m [t] ?s1 0"
  have "rejected ?s1 = None" unfolding s1 by (simp add: titan_spawn_single [OF P M])
  then have r2: "rejected ?s2 = Some ?F"
    using lone_returning_step [OF t1 inv1, of I p tr m t 0] by simp
  have "titan_run I p tr m [t] (0 # 0 # sched) = foldl (titan_step I p tr m [t]) ?s2 sched"
    by (simp add: titan_run_def)
  then have rej: "rejected (titan_run I p tr m [t] (0 # 0 # sched)) = Some ?F"
    using rejected_sticks_run [OF r2] by simp
  show "processTitanEmbeddings I p tr (0 # 0 # sched) [t] m = Some (Inl ?F, [Send 0 0 (titan_input m t)])"
    using states [of "0 # 0 # sched"] rej
    by (simp add: processTitanEmbeddings_def titan_result_def Let_def)
qed

lemma first_chunk_terminal:
  assumes "0 < maxRetries p" and "tr 0 0 = Rejected e" and "status e \<noteq> Some 429"
    and "texts \<noteq> []"
  shows "processCohereEmbeddings I p tr texts m =
           Some (Inl (Formatted e (maxRetries p)),
                 [Send 0 0 (cohere_input p m (js_slice texts 0 (0 + batchSize p)))])"
proof -
  have "embedCohereBatch I p (tr 0) 0 (js_slice texts 0 (0 + batchSize p)) m
        = (Inl (Formatted e (maxRetries p)),
           [Send 0 0 (cohere_input p m (js_slice texts 0 (0 + batchSize p)))])"
    using assms(1-3)
      invoke_first_terminal [of p "tr 0" e I 0 "cohere_input p m (js_slice texts 0 (0 + batchSize p))"]
    by (simp add: embedCohereBatch_def)
  then show ?thesis
    unfolding processCohereEmbeddings_def using assms(4)
    by (subst cohere_loop_failure) simp_all
qed

text \<open>
  C6, as the code has it. With \<^verbatim>\<open>maxRetries = 3\<close> and a transport that fails every
  attempt with the same generic error, a logical call makes exactly one transport
  call and throws the formatted error, whose message contains \<open>3 attempts\<close> and
  the text of the underlying error; a Cohere call on a non-empty input fails so after
  the single call for its first chunk, and a Titan call on one text, under any
  schedule, is pending or has failed so after its single call, and has failed once
  task 0 has run its two continuations.
\<close>

theorem generic_failure_single_call:
  assumes M: "maxRetries p = 3" and tr: "\<forall>c a. tr c a = Rejected e"
    and g: "classify connection e = GenericTransportError"
  shows "invokeModelWithRetries INITIAL_RETRY_DELAY_MS p (tr c) c input
           = (Inl (Formatted e 3), [Send c 0 input])
     \<and> transport_calls [Send c 0 input] = 1
     \<and> contains (error_message connection (Formatted e 3)) ''3 attempts''
     \<and> contains (error_message connection (Formatted e 3)) (message e)
     \<and> (texts \<noteq> [] \<and> isCohereModel (effective_model p model) \<longrightarrow>
          createEmbeddings INITIAL_RETRY_DELAY_MS p tr sched texts model
            = Some (Inl (Formatted e 3),
                    [Send 0 0 (cohere_input p (effective_model p model)
                                 (js_slice texts 0 (0 + batchSize p)))]))
     \<and> (0 < maxConcurrency p \<and> isTitanModel (effective_model p model) \<longrightarrow>
          (createEmbeddings INITIAL_RETRY_DELAY_MS p tr sched [t] model = None
           \<or> createEmbeddings INITIAL_RETRY_DELAY_MS p tr sched [t] model
               = Some (Inl (Formatted e 3), [Send 0 0 (titan_input (effective_model p model) t)]))
          \<and> createEmbeddings INITIAL_RETRY_DELAY_MS p tr (0 # 0 # sched) [t] model
               = Some (Inl (Formatted e 3), [Send 0 0 (titan_input (effective_model p model) t)]))"
proof -
  have s: "status e \<noteq> Some 429" using g by (rule generic_not_throttled)
  have M0: "0 < maxRetries p" using M by simp
  have tr0: "\<forall>a. tr 0 a = Rejected e" and trc: "tr c 0 = Rejected e" and tr00: "tr 0 0 = Rejected e"
    using tr by simp_all
  have A: "invokeModelWithRetries INITIAL_RETRY_DELAY_MS p (tr c) c input
           = (Inl (Formatted e 3), [Send c 0 input])"
    using invoke_first_terminal [of p "tr c" e INITIAL_RETRY_DELAY_MS c input] M0 trc s M by simp
  have B: "transport_calls [Send c 0 input] = 1"
    by (simp add: transport_calls_def is_send_def)
  have C: "createEmbeddings INITIAL_RETRY_DELAY_MS p tr sched texts model
            = Some (Inl (Formatted e 3),
                    [Send 0 0 (cohere_input p (effective_model p model)
                                 (js_slice texts 0 (0 + batchSize p)))])"
    if "texts \<noteq> []" "isCohereModel (effective_model p model)"
    using that families_disjoint
      first_chunk_terminal [where tr = tr and I = INITIAL_RETRY_DELAY_MS and m = "effective_model p model", OF M0 tr00 s that(1)] M
    by (simp add: createEmbeddings_def finish_def Let_def)
  have D: "(createEmbeddings INITIAL_RETRY_DELAY_MS p tr sched [t] model = None
           \<or> createEmbeddings INITIAL_RETRY_DELAY_MS p tr sched [t] model
               = Some (Inl (Formatted e 3), [Send 0 0 (titan_input (effective_model p model) t)]))
          \<and> createEmbeddings INITIAL_RETRY_DELAY_MS p tr (0 # 0 # sched) [t] model
               = Some (Inl (Formatted e 3), [Send 0 0 (titan_input (effective_model p model) t)])"
    if "0 < maxConcurrency p" "isTitanModel (effective_model p model)"
    using that(2) M
      lone_failure_result [where tr = tr and I = INITIAL_RETRY_DELAY_MS and sched = sched and t = t and m = "effective_model p model", OF that(1) M0 tr0 s]
    by (auto simp: createEmbeddings_def finish_def Let_def)
  show ?thesis
    using A B C D generic_message [OF g] by blast
qed

text \<open>
  The scenario of the specification on the default Titan model: one text, every
  attempt rejected with a generic error, \<^verbatim>\<open>maxRetries = 3\<close>. The run has one
  transport call, not three.
\<close>

theorem generic_failure_counterexample:
  "createEmbeddings 500 titan_provider always_failing [0, 0] [[72, 105]] None
     = Some (Inl (Formatted generic_failure 3),
             [Send 0 0 (titan_input ''amazon.titan-embed-text-v1'' [72, 105])])
   \<and> transport_calls [Send 0 0 (titan_input ''amazon.titan-embed-text-v1'' [72, 105])] \<noteq> 3"
proof -
  have P: "0 < maxConcurrency titan_provider" and M: "0 < maxRetries titan_provider"
    by (simp_all add: titan_provider_def)
  have tr: "\<forall>a. always_failing 0 a = Rejected generic_failure"
    by (simp add: always_failing_def)
  have s: "status generic_failure \<noteq> Some 429" by (simp add: generic_failure_def)
  have T: "isTitanModel (effective_model titan_provider None)"
    and E: "effective_model titan_provider None = ''amazon.titan-embed-text-v1''"
    by (simp_all add: isTitanModel_def effective_model_def titan_provider_def)
  have "processTitanEmbeddings 500 titan_provider always_failing (0 # 0 # []) [[72, 105]]
          ''amazon.titan-embed-text-v1''
        = Some (Inl (Formatted generic_failure (maxRetries titan_provider)),
                [Send 0 0 (titan_input ''amazon.titan-embed-text-v1'' [72, 105])])"
    by (rule lone_failure_result(2) [where tr = always_failing, OF P M tr s])
  then show ?thesis
    using T E
    by (simp add: createEmbeddings_def finish_def Let_def titan_provider_def
        transport_calls_def is_send_def)
qed

theorem generic_failure_single_call_witness:
  "createEmbeddings 500 cohere_provider always_failing [] [[97]] None
     = Some (Inl (Formatted generic_failure 3),
             [Send 0 0 (cohere_input cohere_provider ''cohere.embed-english-v3'' [[97]])])
   \<and> contains (error_message never_connection (Formatted generic_failure 3)) ''3 attempts''
   \<and> contains (error_message never_connection (Formatted generic_failure 3)) ''API connection failed''"
proof -
  have M: "maxRetries cohere_provider = 3" by (simp add: cohere_provider_def)
  have tr: "\<forall>c a. always_failing c a = Rejected generic_failure" by (simp add: always_failing_def)
  have g: "classify never_connection generic_failure = GenericTransportError"
    by (simp add: classify_def never_connection_def generic_failure_def)
  have E: "effective_model cohere_provider None = ''cohere.embed-english-v3''"
    by (simp add: effective_model_def cohere_provider_def)
  have C: "isCohereModel (effective_model cohere_provider None)"
    unfolding E by (simp add: isCohereModel_def)
  have sl: "js_slice [[97::16 word]] 0 (0 + batchSize cohere_provider) = [[97]]"
    by (simp add: js_slice_def cohere_provider_def)
  have msg: "message generic_failure = ''API connection failed''" by (simp add: generic_failure_def)
  show ?thesis
    using generic_failure_single_call [where tr = always_failing and INITIAL_RETRY_DELAY_MS = 500 and c = 0
        and input = "titan_input [] []" and texts = "[[97]]" and model = None and sched = "[]" and t = "[]",
        OF M tr g]
      C E sl msg
    by simp
qed

theorem malformed_cohere_payload_witness:
  "createEmbeddings 500 cohere_provider missing_field [] [[97]] None
     = Some (Inl InvalidCohereResponse,
             [Send 0 0 (cohere_input cohere_provider ''cohere.embed-english-v3'' [[97]])])"
proof -
  have M: "0 < maxRetries cohere_provider" by (simp add: cohere_provider_def)
  have tr: "missing_field 0 0 = Resolved (Some (JObj []))" by (simp add: missing_field_def)
  have gp: "get_property (JObj []) ''embeddings'' = Inr None" by simp
  have na: "\<forall>vs. (None :: json option) \<noteq> Some (JArr vs)" by simp
  have E: "effective_model cohere_provider None = ''cohere.embed-english-v3''"
    by (simp add: effective_model_def cohere_provider_def)
  have C: "isCohereModel (effective_model cohere_provider None)"
    unfolding E by (simp add: isCohereModel_def)
  have sl: "js_slice [[97::16 word]] 0 (0 + batchSize cohere_provider) = [[97]]"
    by (simp add: js_slice_def cohere_provider_def)
  show ?thesis
    using malformed_cohere_payload [where tr = missing_field and c = 0 and i = 0 and texts = "[[97]]"
        and INITIAL_RETRY_DELAY_MS = 500 and m = "[]" and acc = "[]" and tot = 0 and evs = "[]"
        and model = None and sched = "[]" and connection = never_connection, OF M tr gp na]
      C E sl
    by simp
qed

section \<open>Token usage\<close>

lemma tokens_inv_alt: "tokens_inv texts st = (tokens st = earned_tokens texts (tasks st))"
  by (simp add: tokens_inv_def earned_tokens_def)

lemma titan_decode_tokens: "titan_decode text r = Inr (v, n) \<Longrightarrow> n = estimate_tokens text"
  by (auto simp: titan_decode_def split: sum.splits option.splits json.splits)

lemma sum_differs_at:
  fixes g h :: "nat \<Rightarrow> nat"
  assumes "i < n" and "\<forall>j<n. j \<noteq> i \<longrightarrow> g j = h j"
  shows "(\<Sum>j<n. g j) + h i = (\<Sum>j<n. h j) + g i"
proof -
  have fin: "finite {..<n}" and mem: "i \<in> {..<n}" using assms(1) by simp_all
  have G: "(\<Sum>j<n. g j) = g i + sum g ({..<n} - {i})" by (rule sum.remove [OF fin mem])
  have H: "(\<Sum>j<n. h j) = h i + sum h ({..<n} - {i})" by (rule sum.remove [OF fin mem])
  have "sum g ({..<n} - {i}) = sum h ({..<n} - {i})"
    using assms(2) by (intro sum.cong) auto
  with G H show ?thesis by simp
qed

lemma earned_tokens_update:
  assumes "i < length ts"
  shows "earned_tokens texts (ts[i := t]) + (if earned (ts ! i) then estimate_tokens (texts ! i) else 0)
         = earned_tokens texts ts + (if earned t then estimate_tokens (texts ! i) else 0)"
proof -
  let ?g = "\<lambda>j. if earned (ts[i := t] ! j) then estimate_tokens (texts ! j) else 0"
  let ?h = "\<lambda>j. if earned (ts ! j) then estimate_tokens (texts ! j) else 0"
  have "(\<Sum>j<length ts. ?g j) + ?h i = (\<Sum>j<length ts. ?h j) + ?g i"
    using assms by (intro sum_differs_at) simp_all
  moreover have "?g i = (if earned t then estimate_tokens (texts ! i) else 0)"
    using assms by simp
  ultimately show ?thesis by (simp add: earned_tokens_def)
qed

lemma earned_tokens_same:
  "i < length ts \<Longrightarrow> earned t = earned (ts ! i) \<Longrightarrow> earned_tokens texts (ts[i := t]) = earned_tokens texts ts"
  using earned_tokens_update [of i ts texts t] by simp

lemma earned_tokens_gain:
  "i < length ts \<Longrightarrow> \<not> earned (ts ! i) \<Longrightarrow> earned t \<Longrightarrow>
   earned_tokens texts (ts[i := t]) = earned_tokens texts ts + estimate_tokens (texts ! i)"
  using earned_tokens_update [of i ts texts t] by simp

lemma earned_tokens_append:
  "\<not> earned t \<Longrightarrow> earned_tokens texts (ts @ [t]) = earned_tokens texts ts"
  by (simp add: earned_tokens_def nth_append)

lemma start_body_not_earned: "\<not> earned (fst (start_body p m texts j))"
  by (simp add: start_body_def earned_def)

lemma spawn_one_tasks:
  "\<exists>t. \<not> earned t \<and> tasks (spawn_one p m texts st (length (tasks st))) = tasks st @ [t]"
proof (cases "permits (sem st) > 0")
  case True
  have "tasks (spawn_one p m texts st (length (tasks st)))
        = tasks st @ [fst (start_body p m texts (length (tasks st)))]"
    using True by (simp add: spawn_one_def acquire_def launch_tasks)
  then show ?thesis using start_body_not_earned by blast
next
  case False
  have "tasks (spawn_one p m texts st (length (tasks st))) = tasks st @ [Queued]"
    using False by (simp add: spawn_one_def acquire_def launch_tasks)
  moreover have "\<not> earned Queued" by (simp add: earned_def)
  ultimately show ?thesis by blast
qed

lemma spawn_one_tokens: "tokens (spawn_one p m texts st i) = tokens st"
  by (simp add: spawn_one_def Let_def split: prod.splits)

lemma spawn_one_rejected: "rejected (spawn_one p m texts st i) = rejected st"
  by (simp add: spawn_one_def Let_def split: prod.splits)

lemma spawn_one_tokens_inv:
  assumes "tokens_inv texts st"
  shows "tokens_inv texts (spawn_one p m texts st (length (tasks st)))"
proof -
  from spawn_one_tasks [of p m texts st] obtain t where
    t: "\<not> earned t" "tasks (spawn_one p m texts st (length (tasks st))) = tasks st @ [t]"
    by blast
  show ?thesis
    unfolding tokens_inv_alt t(2) spawn_one_tokens
    using assms t(1) by (simp add: tokens_inv_alt earned_tokens_append)
qed

lemma spawn_prefix_tokens:
  "tokens_inv texts (foldl (spawn_one p m texts) (titan_init p) [0..<k])
   \<and> rejected (foldl (spawn_one p m texts) (titan_init p) [0..<k]) = None"
proof (induction k)
  case 0
  show ?case by (simp add: tokens_inv_alt earned_tokens_def titan_init_def)
next
  case (Suc k)
  have len: "length (tasks (foldl (spawn_one p m texts) (titan_init p) [0..<k])) = k"
    using spawn_prefix [of p m texts k] by simp
  show ?case
    using Suc spawn_one_tokens_inv [of texts "foldl (spawn_one p m texts) (titan_init p) [0..<k]" p m]
    by (simp add: len spawn_one_rejected)
qed

lemma titan_spawn_tokens_inv: "tokens_inv texts (titan_spawn p m texts)"
  and titan_spawn_rejected: "rejected (titan_spawn p m texts) = None"
  unfolding titan_spawn_def using spawn_prefix_tokens [of texts p m "length texts"] by simp_all

lemma settle_started: "snd (settle i b s) = Some w \<Longrightarrow> w \<in> set (waiting s)"
  by (cases b)
     (auto simp: settle_def finally_block_def Let_def split: if_splits list.splits)

lemma titan_step_calling:
  assumes "i < length (tasks st)" and "tasks st ! i = Calling a"
  shows "titan_step I p tr m texts st i =
     (case tr i a of
        Resolved r \<Rightarrow>
          (case titan_decode (texts ! i) r of
             Inl e \<Rightarrow> st\<lparr> tasks := (tasks st)[i := Returning (Inl e)] \<rparr>
           | Inr (embedding, n) \<Rightarrow>
               st\<lparr> tasks := (tasks st)[i := Returning (Inr embedding)], tokens := tokens st + n \<rparr>)
      | Rejected err \<Rightarrow>
          (case catch_block I (maxRetries p) a err of
             Retry delayMs \<Rightarrow>
               st\<lparr> tasks := (tasks st)[i := Sleeping a], trace := trace st @ [Delay i delayMs] \<rparr>
           | Throw e \<Rightarrow> st\<lparr> tasks := (tasks st)[i := Returning (Inl e)] \<rparr>))"
  using assms by (simp add: titan_step_def)

lemma titan_step_sleeping:
  assumes "i < length (tasks st)" and "tasks st ! i = Sleeping a"
  shows "titan_step I p tr m texts st i =
     (if int (a + 1) < maxRetries p then
        st\<lparr> tasks := (tasks st)[i := Calling (a + 1)],
            trace := trace st @ [Send i (a + 1) (titan_input m (texts ! i))] \<rparr>
      else st\<lparr> tasks := (tasks st)[i := Returning (Inl (FailedMaxAttempts (maxRetries p)))] \<rparr>)"
  using assms by (simp add: titan_step_def)

lemma titan_step_returning_tasks:
  assumes "i < length (tasks st)" and "tasks st ! i = Returning r"
  shows "tokens (titan_step I p tr m texts st i) = tokens st
         \<and> (tasks (titan_step I p tr m texts st i) = (tasks st)[i := Done r]
            \<or> (\<exists>w \<in> set (waiting (sem st)).
                  tasks (titan_step I p tr m texts st i)
                    = (tasks st)[i := Done r, w := fst (start_body p m texts w)]))"
proof -
  let ?b = "case r of Inl _ \<Rightarrow> Threw | Inr _ \<Rightarrow> Returned"
  show ?thesis
  proof (cases "snd (settle i ?b (sem st))")
    case None
    then show ?thesis
      unfolding titan_step_returning [OF assms] by (simp add: launch_tasks)
  next
    case (Some w)
    then have "w \<in> set (waiting (sem st))" by (rule settle_started)
    then show ?thesis
      unfolding titan_step_returning [OF assms] using Some by (auto simp: launch_tasks)
  qed
qed

lemma titan_step_tokens_inv:
  assumes T: "tokens_inv texts st" and inv: "titan_inv n st"
  shows "tokens_inv texts (titan_step I p tr m texts st i)"
proof -
  have tok: "tokens st = earned_tokens texts (tasks st)" using T by (simp add: tokens_inv_alt)
  consider (idle) "\<not> i < length (tasks st) \<or> tasks st ! i = Queued \<or> is_done (tasks st ! i)"
    | (calling) a where "i < length (tasks st)" "tasks st ! i = Calling a"
    | (sleeping) a where "i < length (tasks st)" "tasks st ! i = Sleeping a"
    | (ret) r where "i < length (tasks st)" "tasks st ! i = Returning r"
    by (cases "tasks st ! i") (auto simp: is_done_def)
  then show ?thesis
  proof cases
    case idle
    then show ?thesis using T by (simp add: titan_step_idle)
  next
    case calling
    have ne: "\<not> earned (tasks st ! i)" using calling(2) by (simp add: earned_def)
    show ?thesis
    proof (cases "tr i a")
      case (Resolved r)
      show ?thesis
      proof (cases "titan_decode (texts ! i) r")
        case (Inl e)
        have "earned_tokens texts ((tasks st)[i := Returning (Inl e)]) = earned_tokens texts (tasks st)"
          using calling(1) ne by (intro earned_tokens_same) (simp_all add: earned_def)
        then show ?thesis
          unfolding titan_step_calling [OF calling] using Resolved Inl tok
          by (simp add: tokens_inv_alt)
      next
        case (Inr vn)
        obtain v k where vn: "vn = (v, k)" by (cases vn)
        have k: "k = estimate_tokens (texts ! i)"
          using Inr vn by (intro titan_decode_tokens [of "texts ! i" r v k]) simp
        have "earned_tokens texts ((tasks st)[i := Returning (Inr v)])
              = earned_tokens texts (tasks st) + estimate_tokens (texts ! i)"
          using calling(1) ne by (intro earned_tokens_gain) (simp_all add: earned_def)
        then show ?thesis
          unfolding titan_step_calling [OF calling] using Resolved Inr vn k tok
          by (simp add: tokens_inv_alt)
      qed
    next
      case (Rejected err)
      show ?thesis
      proof (cases "catch_block I (maxRetries p) a err")
        case (Retry d)
        have "earned_tokens texts ((tasks st)[i := Sleeping a]) = earned_tokens texts (tasks st)"
          using calling(1) ne by (intro earned_tokens_same) (simp_all add: earned_def)
        then show ?thesis
          unfolding titan_step_calling [OF calling] using Rejected Retry tok
          by (simp add: tokens_inv_alt)
      next
        case (Throw e)
        have "earned_tokens texts ((tasks st)[i := Returning (Inl e)]) = earned_tokens texts (tasks st)"
          using calling(1) ne by (intro earned_tokens_same) (simp_all add: earned_def)
        then show ?thesis
          unfolding titan_step_calling [OF calling] using Rejected Throw tok
          by (simp add: tokens_inv_alt)
      qed
    qed
  next
    case sleeping
    have ne: "\<not> earned (tasks st ! i)" using sleeping(2) by (simp add: earned_def)
    have A: "earned_tokens texts ((tasks st)[i := Calling (a + 1)]) = earned_tokens texts (tasks st)"
      using sleeping(1) ne by (intro earned_tokens_same) (simp_all add: earned_def)
    have B: "earned_tokens texts ((tasks st)[i := Returning (Inl (FailedMaxAttempts (maxRetries p)))])
             = earned_tokens texts (tasks st)"
      using sleeping(1) ne by (intro earned_tokens_same) (simp_all add: earned_def)
    show ?thesis
      unfolding titan_step_sleeping [OF sleeping] using A B tok
      by (simp add: tokens_inv_alt)
  next
    case ret
    have same: "earned (Done r) = earned (tasks st ! i)"
      using ret(2) by (simp add: earned_def)
    have D: "earned_tokens texts ((tasks st)[i := Done r]) = earned_tokens texts (tasks st)"
      using ret(1) same by (intro earned_tokens_same)
    have W: "earned_tokens texts ((tasks st)[i := Done r, w := fst (start_body p m texts w)])
             = earned_tokens texts (tasks st)" if "w \<in> set (waiting (sem st))" for w
    proof -
      have wq: "w < length (tasks st)" "tasks st ! w = Queued"
        using inv that by (auto simp: titan_inv_def)
      have wi: "w \<noteq> i" using wq ret by auto
      have "earned_tokens texts ((tasks st)[i := Done r, w := fst (start_body p m texts w)])
            = earned_tokens texts ((tasks st)[i := Done r])"
        using wq wi start_body_not_earned [of p m texts w]
        by (intro earned_tokens_same) (simp_all add: earned_def)
      then show ?thesis using D by simp
    qed
    from titan_step_returning_tasks [OF ret, of I p tr m texts]
    show ?thesis using D W tok by (auto simp: tokens_inv_alt)
  qed
qed

lemma titan_run_tokens_inv: "tokens_inv texts (titan_run I p tr m texts sched)"
  unfolding titan_run_def
  by (induction sched rule: rev_induct)
     (simp_all add: titan_spawn_tokens_inv titan_step_tokens_inv [OF _ titan_run_inv [unfolded titan_run_def]])

lemma those_Some:
  "those xs = Some ys \<Longrightarrow> length ys = length xs \<and> (\<forall>i<length xs. xs ! i = Some (ys ! i))"
proof (induction xs arbitrary: ys)
  case Nil
  then show ?case by simp
next
  case (Cons x xs)
  then show ?case
    by (auto simp: nth_Cons split: option.splits nat.splits)
qed

lemma fulfilled_Some: "fulfilled t = Some v \<longleftrightarrow> t = Done (Inr v)"
  by (auto simp: fulfilled_def split: task.splits sum.splits)

lemma code_tokens_sum: "code_tokens texts = (\<Sum>i<length texts. estimate_tokens (texts ! i))"
  by (simp add: code_tokens_def sum_list_sum_nth atLeast0LessThan)

lemma titan_result_success:
  assumes "titan_result st = Some (Inr r)"
  shows "rejected st = None \<and> length (embeddings r) = length (tasks st)
         \<and> (\<forall>i<length (tasks st). tasks st ! i = Done (Inr (embeddings r ! i)))
         \<and> promptTokens (usage r) = tokens st \<and> totalTokens (usage r) = tokens st"
proof -
  from assms obtain vs where vs: "rejected st = None" "those (map fulfilled (tasks st)) = Some vs"
    "r = \<lparr> embeddings = [] @ vs, usage = \<lparr> promptTokens = tokens st, totalTokens = tokens st \<rparr> \<rparr>"
    by (auto simp: titan_result_def split: option.splits)
  from those_Some [OF vs(2)] have "length vs = length (tasks st)"
    and "\<forall>i<length (tasks st). fulfilled (tasks st ! i) = Some (vs ! i)"
    by simp_all
  then show ?thesis using vs(1,3) by (simp add: fulfilled_Some)
qed

lemma titan_success_tokens:
  assumes "titan_result st = Some (Inr r)" and "tokens_inv texts st"
    and "length (tasks st) = length texts"
  shows "promptTokens (usage r) = code_tokens texts \<and> totalTokens (usage r) = code_tokens texts"
proof -
  from titan_result_success [OF assms(1)]
  have d: "\<forall>i<length (tasks st). earned (tasks st ! i)"
    and u: "promptTokens (usage r) = tokens st" "totalTokens (usage r) = tokens st"
    by (auto simp: earned_def)
  have "tokens st = earned_tokens texts (tasks st)" using assms(2) by (simp add: tokens_inv_alt)
  also have "\<dots> = (\<Sum>i<length (tasks st). estimate_tokens (texts ! i))"
    unfolding earned_tokens_def using d by (intro sum.cong) simp_all
  also have "\<dots> = code_tokens texts" by (simp add: code_tokens_sum assms(3))
  finally show ?thesis using u by simp
qed

lemma foldl_tokens: "foldl (\<lambda>sum text. sum + estimate_tokens text) k xs = k + code_tokens xs"
  by (induction xs arbitrary: k) (simp_all add: code_tokens_def)

lemma cohere_decode_tokens: "cohere_decode batch r = Inr (embs, n) \<Longrightarrow> n = code_tokens batch"
  by (auto simp: cohere_decode_def foldl_tokens split: sum.splits option.splits json.splits)

lemma embedCohereBatch_tokens:
  "embedCohereBatch I p send c batch m = (Inr (embs, n), evs) \<Longrightarrow> n = code_tokens batch"
  by (auto simp: embedCohereBatch_def Let_def cohere_decode_tokens split: prod.splits sum.splits)

lemma js_slice_chunk:
  assumes "0 \<le> i" and "0 < b"
  shows "js_slice xs i (i + b) = take (nat b) (drop (nat i) xs)"
proof (cases "i + b \<le> int (length xs)")
  case True
  then show ?thesis using assms by (simp add: js_slice_def Let_def min_def)
next
  case False
  have "length (drop (nat i) xs) \<le> nat b" using False assms by simp
  then have t: "take (nat b) (drop (nat i) xs) = drop (nat i) xs" by simp
  have "js_slice xs i (i + b) = drop (nat i) xs"
  proof (cases "i \<le> int (length xs)")
    case True
    then show ?thesis using False assms by (simp add: js_slice_def Let_def min_def)
  next
    case f: False
    then have "drop (nat i) xs = []" by simp
    then show ?thesis using f False assms by (simp add: js_slice_def Let_def min_def)
  qed
  with t show ?thesis by simp
qed

lemma code_tokens_append: "code_tokens (xs @ ys) = code_tokens xs + code_tokens ys"
  by (simp add: code_tokens_def)

lemma code_tokens_split:
  "code_tokens (drop k xs) = code_tokens (take b (drop k xs)) + code_tokens (drop (k + b) xs)"
proof -
  have "code_tokens (take b (drop k xs) @ drop b (drop k xs)) = code_tokens (drop k xs)"
    by (simp only: append_take_drop_id)
  then show ?thesis by (simp add: code_tokens_append add.commute)
qed

lemma cohere_success_tokens:
  assumes "cohere_loop I p tr texts m i c acc tot evs = Some y"
  shows "\<forall>r es. y = (Inr r, es) \<longrightarrow>
           (0 < batchSize p \<longrightarrow> 0 \<le> i \<longrightarrow>
              promptTokens (usage r) = tot + code_tokens (drop (nat i) texts)
              \<and> totalTokens (usage r) = tot + code_tokens (drop (nat i) texts))
           \<and> (batchSize p \<le> 0 \<longrightarrow> i \<le> 0 \<longrightarrow> texts = [])"
proof (rule cohere_loop.raw_induct
    [where P = "\<lambda>I p tr texts m i c acc tot evs y.
       \<forall>r es. y = (Inr r, es) \<longrightarrow>
           (0 < batchSize p \<longrightarrow> 0 \<le> i \<longrightarrow>
              promptTokens (usage r) = tot + code_tokens (drop (nat i) texts)
              \<and> totalTokens (usage r) = tot + code_tokens (drop (nat i) texts))
           \<and> (batchSize p \<le> 0 \<longrightarrow> i \<le> 0 \<longrightarrow> texts = [])", OF _ assms])
  fix loop :: "int \<Rightarrow> provider \<Rightarrow> transport \<Rightarrow> jsstring list \<Rightarrow> string
     \<Rightarrow> int \<Rightarrow> nat \<Rightarrow> json list \<Rightarrow> nat \<Rightarrow> event list
     \<Rightarrow> ((error + EmbeddingResponse) \<times> event list) option"
  fix I' p' and tr' :: transport and texts' :: "jsstring list" and m' i' c' acc' tot' evs' y'
  assume IH: "\<And>I p tr texts m i c acc tot evs y.
       loop I p tr texts m i c acc tot evs = Some y \<Longrightarrow>
       \<forall>r es. y = (Inr r, es) \<longrightarrow>
           (0 < batchSize p \<longrightarrow> 0 \<le> i \<longrightarrow>
              promptTokens (usage r) = tot + code_tokens (drop (nat i) texts)
              \<and> totalTokens (usage r) = tot + code_tokens (drop (nat i) texts))
           \<and> (batchSize p \<le> 0 \<longrightarrow> i \<le> 0 \<longrightarrow> texts = [])"
  assume body: "(if i' < int (length texts')
      then let batch = js_slice texts' i' (i' + batchSize p')
           in case embedCohereBatch I' p' (tr' c') c' batch m' of
              (Inl e, evs'') \<Rightarrow> Some (Inl e, evs' @ evs'')
              | (Inr (embs, k), evs'') \<Rightarrow>
                  loop I' p' tr' texts' m' (i' + batchSize p') (c' + 1) (acc' @ embs)
                   (tot' + k) (evs' @ evs'')
      else Some (Inr \<lparr>embeddings = acc', usage = \<lparr>promptTokens = tot', totalTokens = tot'\<rparr>\<rparr>, evs'))
     = Some y'"
  show "\<forall>r es. y' = (Inr r, es) \<longrightarrow>
           (0 < batchSize p' \<longrightarrow> 0 \<le> i' \<longrightarrow>
              promptTokens (usage r) = tot' + code_tokens (drop (nat i') texts')
              \<and> totalTokens (usage r) = tot' + code_tokens (drop (nat i') texts'))
           \<and> (batchSize p' \<le> 0 \<longrightarrow> i' \<le> 0 \<longrightarrow> texts' = [])"
  proof (cases "i' < int (length texts')")
    case False
    have e: "i' \<le> 0 \<Longrightarrow> texts' = []" using False by (cases texts') auto
    from False body e show ?thesis by (auto simp: code_tokens_def)
  next
    case True
    let ?batch = "js_slice texts' i' (i' + batchSize p')"
    obtain res evs2 where b: "embedCohereBatch I' p' (tr' c') c' ?batch m' = (res, evs2)"
      by (cases "embedCohereBatch I' p' (tr' c') c' ?batch m'")
    show ?thesis
    proof (cases res)
      case (Inl e)
      with body True b show ?thesis by (auto simp: Let_def)
    next
      case (Inr en)
      obtain embs n where en: "en = (embs, n)" by (cases en)
      have n: "n = code_tokens ?batch"
        using b Inr en by (intro embedCohereBatch_tokens [of I' p' "tr' c'" c' ?batch m' embs n evs2]) simp
      have rec: "loop I' p' tr' texts' m' (i' + batchSize p') (c' + 1) (acc' @ embs) (tot' + n) (evs' @ evs2) = Some y'"
        using body True b Inr en by (simp add: Let_def)
      note H = IH [OF rec]
      show ?thesis
      proof (intro allI impI conjI)
        fix r es assume y: "y' = (Inr r, es)" and bs: "0 < batchSize p'" and i0: "0 \<le> i'"
        have sl: "?batch = take (nat (batchSize p')) (drop (nat i') texts')"
          using i0 bs by (rule js_slice_chunk)
        have nn: "nat (i' + batchSize p') = nat i' + nat (batchSize p')"
          using i0 bs by (simp add: nat_add_distrib)
        from H y bs i0
        have "promptTokens (usage r) = tot' + n + code_tokens (drop (nat (i' + batchSize p')) texts')
              \<and> totalTokens (usage r) = tot' + n + code_tokens (drop (nat (i' + batchSize p')) texts')"
          by simp
        moreover have "code_tokens (drop (nat i') texts')
              = n + code_tokens (drop (nat (i' + batchSize p')) texts')"
          unfolding n sl nn by (rule code_tokens_split)
        ultimately show "promptTokens (usage r) = tot' + code_tokens (drop (nat i') texts')"
          and "totalTokens (usage r) = tot' + code_tokens (drop (nat i') texts')"
          by simp_all
      next
        fix r es assume y: "y' = (Inr r, es)" and bs: "batchSize p' \<le> 0" and i0: "i' \<le> 0"
        from H y bs i0 show "texts' = []" by simp
      qed
    qed
  qed
qed

lemma finish_Inr:
  "finish x = (Inr r, evs) \<Longrightarrow>
   \<exists>r0. x = (Inr r0, evs) \<and> embeddings r = embeddings r0
        \<and> promptTokens (usage r) = promptTokens (usage r0)
        \<and> totalTokens (usage r) = totalTokens (usage r0)"
  by (cases x) (auto simp: finish_def split: sum.splits)

lemma finish_Inl: "finish x = (Inl e, evs) \<Longrightarrow> x = (Inl e, evs)"
  by (cases x) (auto simp: finish_def split: sum.splits)

text \<open>
  C8, as the code has it. For every successful \<^verbatim>\<open>createEmbeddings\<close> call, of either
  family, under any transport, schedule and configuration, both usage counters equal
  the sum over the input texts of \<^verbatim>\<open>ceil(text.length / 4)\<close>, where the length is the
  number of UTF-16 code units.
\<close>

theorem usage_counts_code_units:
  assumes "createEmbeddings INITIAL_RETRY_DELAY_MS p tr sched texts model = Some (Inr r, evs)"
  shows "promptTokens (usage r) = code_tokens texts \<and> totalTokens (usage r) = code_tokens texts"
proof -
  let ?m = "effective_model p model"
  consider (titan) "isTitanModel ?m"
    | (cohere) "\<not> isTitanModel ?m" "isCohereModel ?m"
    | (other) "\<not> isTitanModel ?m" "\<not> isCohereModel ?m"
    by blast
  then show ?thesis
  proof cases
    case titan
    let ?st = "titan_run INITIAL_RETRY_DELAY_MS p tr ?m texts sched"
    from assms titan obtain x where
      x: "processTitanEmbeddings INITIAL_RETRY_DELAY_MS p tr sched texts ?m = Some x"
      "finish x = (Inr r, evs)"
      by (auto simp: createEmbeddings_def Let_def)
    from finish_Inr [OF x(2)] obtain r0 where r0: "x = (Inr r0, evs)"
      "promptTokens (usage r) = promptTokens (usage r0)" "totalTokens (usage r) = totalTokens (usage r0)"
      by blast
    have "titan_result ?st = Some (Inr r0)"
      using x(1) r0(1) by (auto simp: processTitanEmbeddings_def Let_def)
    from titan_success_tokens [OF this titan_run_tokens_inv titan_run_length]
    show ?thesis using r0 by simp
  next
    case cohere
    from assms cohere obtain x where
      x: "cohere_loop INITIAL_RETRY_DELAY_MS p tr texts ?m 0 0 [] 0 [] = Some x"
      "finish x = (Inr r, evs)"
      by (auto simp: createEmbeddings_def processCohereEmbeddings_def Let_def)
    from finish_Inr [OF x(2)] obtain r0 where r0: "x = (Inr r0, evs)"
      "promptTokens (usage r) = promptTokens (usage r0)" "totalTokens (usage r) = totalTokens (usage r0)"
      by blast
    note H = cohere_success_tokens [OF x(1), rule_format, OF r0(1)]
    show ?thesis
    proof (cases "0 < batchSize p")
      case True
      with H r0 show ?thesis by simp
    next
      case False
      with H have e: "texts = []" by simp
      have "cohere_loop INITIAL_RETRY_DELAY_MS p tr texts ?m 0 0 [] 0 []
            = Some (Inr \<lparr> embeddings = [], usage = \<lparr> promptTokens = 0, totalTokens = 0 \<rparr> \<rparr>, [])"
        using e by (intro cohere_loop_exit) simp
      with x(1) r0 e show ?thesis by (simp add: code_tokens_def)
    qed
  next
    case other
    with assms show ?thesis by (simp add: createEmbeddings_def Let_def)
  qed
qed

lemma accented_run:
  "createEmbeddings 500 cohere_provider one_vector [] [accented] None
     = Some (Inr \<lparr> embeddings = [JArr [JNum 1]],
                   usage = \<lparr> promptTokens = 2, totalTokens = 2 \<rparr> \<rparr>,
             [Send 0 0 (cohere_input cohere_provider ''cohere.embed-english-v3'' [accented])])"
  by (simp add: createEmbeddings_def effective_model_def cohere_provider_def isTitanModel_def
      isCohereModel_def processCohereEmbeddings_def cohere_loop.simps embedCohereBatch_def
      invokeModelWithRetries_def one_vector_def cohere_decode_def JSON_parse_def js_slice_def
      estimate_tokens_def finish_def cohere_input_def accented_def)

text \<open>
  A text of five letters e-acute: five code units, ten bytes in UTF-8. The code
  reports 2 tokens; the estimate on the UTF-8 length is 3.
\<close>

theorem usage_utf8_counterexample:
  "createEmbeddings 500 cohere_provider one_vector [] [accented] None
     = Some (Inr \<lparr> embeddings = [JArr [JNum 1]],
                   usage = \<lparr> promptTokens = 2, totalTokens = 2 \<rparr> \<rparr>,
             [Send 0 0 (cohere_input cohere_provider ''cohere.embed-english-v3'' [accented])])
   \<and> spec_tokens [accented] = 3"
proof -
  have "utf8_length accented = 10"
    by (simp add: accented_def unit_bytes_def high_surrogate_def low_surrogate_def)
  then have "spec_tokens [accented] = 3" by (simp add: spec_tokens_def)
  with accented_run show ?thesis by simp
qed

theorem usage_counts_code_units_witness:
  "createEmbeddings 500 cohere_provider one_vector [] [accented] None
     = Some (Inr \<lparr> embeddings = [JArr [JNum 1]],
                   usage = \<lparr> promptTokens = 2, totalTokens = 2 \<rparr> \<rparr>,
             [Send 0 0 (cohere_input cohere_provider ''cohere.embed-english-v3'' [accented])])
   \<and> code_tokens [accented] = 2"
  using usage_counts_code_units [OF accented_run] accented_run by simp

section \<open>The first terminal failure\<close>



lemma titan_result_failure: "titan_result st = Some (Inl e) \<longleftrightarrow> rejected st = Some e"
  by (auto simp: titan_result_def split: option.splits)

lemma titan_run_append:
  "titan_run I p tr m texts (sched @ later)
     = foldl (titan_step I p tr m texts) (titan_run I p tr m texts sched) later"
  by (simp add: titan_run_def)



section \<open>Progress of the gated calls\<close>

lemma sum_list_update_less:
  fixes f :: "'a \<Rightarrow> nat"
  assumes "i < length xs" and "f t < f (xs ! i)"
  shows "sum_list (map f (xs[i := t])) < sum_list (map f xs)"
proof -
  have "sum_list (map f (xs[i := t])) = sum_list ((map f xs)[i := f t])" by (simp add: map_update)
  also have "\<dots> = sum_list (map f xs) + f t - (map f xs) ! i"
    using assms(1) by (simp add: sum_list_update)
  finally have e: "sum_list (map f (xs[i := t])) = sum_list (map f xs) + f t - f (xs ! i)"
    using assms(1) by simp
  have "f (xs ! i) \<le> sum_list (map f xs)"
    using assms(1) by (intro member_le_sum_list) simp_all
  with e assms(2) show ?thesis by linarith
qed

lemma weight_start_body: "weight k (fst (start_body p m texts w)) < weight k Queued"
  by (simp add: start_body_def weight_def)

lemma remaining_body_step:
  assumes "i < length (tasks st)" and "tasks st ! i = Calling a \<or> tasks st ! i = Sleeping a"
  shows "remaining p (titan_step I p tr m texts st i) < remaining p st"
proof -
  let ?k = "nat (maxRetries p)"
  have "\<exists>t. tasks (titan_step I p tr m texts st i) = (tasks st)[i := t]
            \<and> weight ?k t < weight ?k (tasks st ! i)"
  proof (rule disjE [OF assms(2)])
    assume c: "tasks st ! i = Calling a"
    show ?thesis
      unfolding titan_step_calling [OF assms(1) c] c
      by (auto simp: weight_def split: outcome.splits sum.splits retry_decision.splits prod.splits)
  next
    assume s: "tasks st ! i = Sleeping a"
    show ?thesis
      unfolding titan_step_sleeping [OF assms(1) s] s
      by (auto simp: weight_def)
  qed
  then obtain t where t: "tasks (titan_step I p tr m texts st i) = (tasks st)[i := t]"
    "weight ?k t < weight ?k (tasks st ! i)" by blast
  show ?thesis
    unfolding remaining_def t(1) using assms(1) t(2) by (rule sum_list_update_less)
qed

lemma remaining_returning_step:
  assumes "i < length (tasks st)" and "tasks st ! i = Returning r" and inv: "titan_inv n st"
  shows "remaining p (titan_step I p tr m texts st i) < remaining p st"
proof -
  let ?k = "nat (maxRetries p)"
  have d: "sum_list (map (weight ?k) ((tasks st)[i := Done r])) < sum_list (map (weight ?k) (tasks st))"
    using assms(1,2) by (intro sum_list_update_less) (simp_all add: weight_def)
  from titan_step_returning_tasks [OF assms(1,2), of I p tr m texts]
  consider (plain) "tasks (titan_step I p tr m texts st i) = (tasks st)[i := Done r]"
    | (woke) w where "w \<in> set (waiting (sem st))"
        "tasks (titan_step I p tr m texts st i) = (tasks st)[i := Done r, w := fst (start_body p m texts w)]"
    by blast
  then show ?thesis
  proof cases
    case plain
    then show ?thesis unfolding remaining_def using d by simp
  next
    case woke
    have wq: "w < length (tasks st)" "tasks st ! w = Queued"
      using inv woke(1) by (auto simp: titan_inv_def)
    have wi: "w \<noteq> i" using wq assms(2) by auto
    have "sum_list (map (weight ?k) ((tasks st)[i := Done r, w := fst (start_body p m texts w)]))
          < sum_list (map (weight ?k) ((tasks st)[i := Done r]))"
      using wq wi weight_start_body [of ?k p m texts w]
      by (intro sum_list_update_less) simp_all
    with d show ?thesis unfolding remaining_def woke(2) by simp
  qed
qed

lemma remaining_active_step:
  assumes "i < length (tasks st)" and "active (tasks st ! i)" and "titan_inv n st"
  shows "remaining p (titan_step I p tr m texts st i) < remaining p st"
proof (cases "tasks st ! i")
  case (Calling a)
  then show ?thesis using assms(1) by (intro remaining_body_step) simp_all
next
  case (Sleeping a)
  then show ?thesis using assms(1) by (intro remaining_body_step) simp_all
next
  case (Returning r)
  then show ?thesis using assms(1,3) by (intro remaining_returning_step)
next
  case Queued
  with assms(2) show ?thesis by (simp add: active_def)
next
  case (Done r)
  with assms(2) show ?thesis by (simp add: active_def)
qed

lemma some_task_enabled:
  assumes inv: "titan_inv n st" and n: "0 < n" and open_: "\<exists>t \<in> set (tasks st). \<not> is_done t"
  shows "\<exists>i<length (tasks st). active (tasks st ! i)"
proof (cases "waiting (sem st)")
  case Nil
  from open_ obtain i where i: "i < length (tasks st)" "\<not> is_done (tasks st ! i)"
    by (auto simp: in_set_conv_nth)
  have "{j. j < length (tasks st) \<and> tasks st ! j = Queued} = {}"
    using inv Nil by (auto simp: titan_inv_def)
  then have "tasks st ! i \<noteq> Queued" using i(1) by blast
  with i(2) have "active (tasks st ! i)"
    by (cases "tasks st ! i") (simp_all add: active_def is_done_def)
  with i(1) show ?thesis by blast
next
  case (Cons w ws)
  have g: "gate_inv n (sem st)" using inv by (simp add: titan_inv_def)
  have "permits (sem st) \<le> 0" and "0 \<le> permits (sem st)"
    and "permits (sem st) + int (length (running (sem st))) = n"
    using g Cons n by (auto simp: gate_inv_def)
  then have "running (sem st) \<noteq> []" using n by auto
  then obtain i where "i \<in> set (running (sem st))" by (cases "running (sem st)") auto
  then show ?thesis using inv by (auto simp: titan_inv_def)
qed

lemma runs_to_completion:
  assumes "titan_inv n st" and "0 < n"
  shows "\<exists>later. \<forall>t \<in> set (tasks (foldl (titan_step I p tr m texts) st later)). is_done t"
  using assms
proof (induction "remaining p st" arbitrary: st rule: less_induct)
  case less
  show ?case
  proof (cases "\<forall>t \<in> set (tasks st). is_done t")
    case True
    then have "\<forall>t \<in> set (tasks (foldl (titan_step I p tr m texts) st [])). is_done t" by simp
    then show ?thesis by blast
  next
    case False
    then have "\<exists>t \<in> set (tasks st). \<not> is_done t" by blast
    from some_task_enabled [OF less.prems(1,2) this]
    obtain i where i: "i < length (tasks st)" "active (tasks st ! i)" by blast
    let ?st' = "titan_step I p tr m texts st i"
    have dec: "remaining p ?st' < remaining p st"
      using i less.prems(1) by (rule remaining_active_step)
    have inv': "titan_inv n ?st'" using less.prems(1) by (rule titan_step_inv)
    from less.hyps [OF dec inv' less.prems(2)]
    obtain later where "\<forall>t \<in> set (tasks (foldl (titan_step I p tr m texts) ?st' later)). is_done t"
      by blast
    then have "\<forall>t \<in> set (tasks (foldl (titan_step I p tr m texts) st (i # later))). is_done t"
      by simp
    then show ?thesis by blast
  qed
qed

section \<open>Order of the embeddings\<close>

lemma start_body_first: "0 < maxRetries p \<Longrightarrow> fst (start_body p m texts w) = Calling 0"
  by (simp add: start_body_def)

lemma spawn_one_tasks_ok:
  assumes "0 < maxRetries p"
  shows "tasks (spawn_one p m texts st (length (tasks st))) = tasks st @ [Queued]
         \<or> tasks (spawn_one p m texts st (length (tasks st))) = tasks st @ [Calling 0]"
proof (cases "permits (sem st) > 0")
  case True
  have "tasks (spawn_one p m texts st (length (tasks st)))
        = tasks st @ [fst (start_body p m texts (length (tasks st)))]"
    using True by (simp add: spawn_one_def acquire_def launch_tasks)
  then show ?thesis using start_body_first [OF assms] by simp
next
  case False
  have "tasks (spawn_one p m texts st (length (tasks st))) = tasks st @ [Queued]"
    using False by (simp add: spawn_one_def acquire_def launch_tasks)
  then show ?thesis by simp
qed

lemma answered_spawn_one:
  assumes "answered vs st" and "0 < maxRetries p"
  shows "answered vs (spawn_one p m texts st (length (tasks st)))"
proof -
  have r: "rejected (spawn_one p m texts st (length (tasks st))) = None"
    using assms(1) by (simp add: spawn_one_rejected answered_def)
  from spawn_one_tasks_ok [OF assms(2), of m texts st]
  show ?thesis
  proof
    assume t: "tasks (spawn_one p m texts st (length (tasks st))) = tasks st @ [Queued]"
    show ?thesis unfolding answered_def t using r assms(1)
      by (auto simp: answered_def nth_append)
  next
    assume t: "tasks (spawn_one p m texts st (length (tasks st))) = tasks st @ [Calling 0]"
    show ?thesis unfolding answered_def t using r assms(1)
      by (auto simp: answered_def nth_append)
  qed
qed

lemma answered_prefix:
  assumes "0 < maxRetries p"
  shows "answered vs (foldl (spawn_one p m texts) (titan_init p) [0..<k])"
proof (induction k)
  case 0
  show ?case by (simp add: answered_def titan_init_def)
next
  case (Suc k)
  have len: "length (tasks (foldl (spawn_one p m texts) (titan_init p) [0..<k])) = k"
    using spawn_prefix [of p m texts k] by simp
  show ?case
    using answered_spawn_one [OF Suc assms, of m texts] by (simp add: len)
qed

lemma answered_spawn: "0 < maxRetries p \<Longrightarrow> answered vs (titan_spawn p m texts)"
  unfolding titan_spawn_def by (rule answered_prefix)

lemma titan_decode_array:
  "get_property j ''embedding'' = Inr (Some (JArr xs)) \<Longrightarrow>
   titan_decode text (Some j) = Inr (JArr xs, estimate_tokens text)"
  by (simp add: titan_decode_def JSON_parse_def)

lemma titan_step_returning_rejected:
  assumes "i < length (tasks st)" and "tasks st ! i = Returning r"
  shows "rejected (titan_step I p tr m texts st i) =
           (case rejected st of
              Some e \<Rightarrow> Some e
            | None \<Rightarrow> (case r of Inl e \<Rightarrow> Some e | Inr _ \<Rightarrow> None))"
  unfolding titan_step_returning [OF assms] by simp

lemma answered_update:
  assumes "answered vs st" and "i < length (tasks st)"
    and "t = Queued \<or> t = Calling 0 \<or> t = Returning (Inr (vs ! i)) \<or> t = Done (Inr (vs ! i))"
  shows "\<forall>k<length ((tasks st)[i := t]).
            (tasks st)[i := t] ! k = Queued \<or> (tasks st)[i := t] ! k = Calling 0
            \<or> (tasks st)[i := t] ! k = Returning (Inr (vs ! k))
            \<or> (tasks st)[i := t] ! k = Done (Inr (vs ! k))"
proof (intro allI impI)
  fix k assume k: "k < length ((tasks st)[i := t])"
  show "(tasks st)[i := t] ! k = Queued \<or> (tasks st)[i := t] ! k = Calling 0
            \<or> (tasks st)[i := t] ! k = Returning (Inr (vs ! k))
            \<or> (tasks st)[i := t] ! k = Done (Inr (vs ! k))"
  proof (cases "k = i")
    case True
    then show ?thesis using assms(2,3) by simp
  next
    case False
    then have "(tasks st)[i := t] ! k = tasks st ! k" by simp
    moreover have "tasks st ! k = Queued \<or> tasks st ! k = Calling 0
            \<or> tasks st ! k = Returning (Inr (vs ! k)) \<or> tasks st ! k = Done (Inr (vs ! k))"
      using assms(1) k by (simp add: answered_def)
    ultimately show ?thesis by simp
  qed
qed

lemma answered_step:
  assumes A: "answered vs st" and inv: "titan_inv n st" and M: "0 < maxRetries p"
    and wf: "\<forall>i<length (tasks st). \<exists>j xs. tr i 0 = Resolved (Some j)
               \<and> get_property j ''embedding'' = Inr (Some (JArr xs)) \<and> vs ! i = JArr xs"
  shows "answered vs (titan_step I p tr m texts st i)"
proof -
  have rej: "rejected st = None" using A by (simp add: answered_def)
  consider (idle) "\<not> i < length (tasks st) \<or> tasks st ! i = Queued \<or> is_done (tasks st ! i)"
    | (calling) "i < length (tasks st)" "tasks st ! i = Calling 0"
    | (ret) "i < length (tasks st)" "tasks st ! i = Returning (Inr (vs ! i))"
    using A by (cases "i < length (tasks st)") (auto simp: answered_def is_done_def)
  then show ?thesis
  proof cases
    case idle
    then show ?thesis using A by (simp add: titan_step_idle)
  next
    case calling
    from wf calling(1) obtain j xs where j: "tr i 0 = Resolved (Some j)"
      "get_property j ''embedding'' = Inr (Some (JArr xs))" "vs ! i = JArr xs"
      by blast
    have d: "titan_decode (texts ! i) (Some j) = Inr (JArr xs, estimate_tokens (texts ! i))"
      using j(2) by (rule titan_decode_array)
    have step: "titan_step I p tr m texts st i =
        st\<lparr> tasks := (tasks st)[i := Returning (Inr (vs ! i))],
            tokens := tokens st + estimate_tokens (texts ! i) \<rparr>"
      unfolding titan_step_calling [OF calling] using j(1,3) d by simp
    show ?thesis
      unfolding step answered_def
      using rej answered_update [OF A calling(1), of "Returning (Inr (vs ! i))"] by simp
  next
    case ret
    have r': "rejected (titan_step I p tr m texts st i) = None"
      using titan_step_returning_rejected [OF ret, of I p tr m texts] rej by simp
    let ?ts = "(tasks st)[i := Done (Inr (vs ! i))]"
    have D: "\<forall>k<length ?ts. ?ts ! k = Queued \<or> ?ts ! k = Calling 0
            \<or> ?ts ! k = Returning (Inr (vs ! k)) \<or> ?ts ! k = Done (Inr (vs ! k))"
      using answered_update [OF A ret(1), of "Done (Inr (vs ! i))"] by simp
    from titan_step_returning_tasks [OF ret, of I p tr m texts]
    consider (plain) "tasks (titan_step I p tr m texts st i) = ?ts"
      | (woke) w where "w \<in> set (waiting (sem st))"
          "tasks (titan_step I p tr m texts st i) = ?ts[w := fst (start_body p m texts w)]"
      by blast
    then show ?thesis
    proof cases
      case plain
      then show ?thesis unfolding answered_def using r' D by simp
    next
      case woke
      have wq: "w < length (tasks st)" using inv woke(1) by (auto simp: titan_inv_def)
      have "\<forall>k<length (?ts[w := Calling 0]).
              ?ts[w := Calling 0] ! k = Queued \<or> ?ts[w := Calling 0] ! k = Calling 0
            \<or> ?ts[w := Calling 0] ! k = Returning (Inr (vs ! k))
            \<or> ?ts[w := Calling 0] ! k = Done (Inr (vs ! k))"
      proof (intro allI impI)
        fix k assume k: "k < length (?ts[w := Calling 0])"
        show "?ts[w := Calling 0] ! k = Queued \<or> ?ts[w := Calling 0] ! k = Calling 0
            \<or> ?ts[w := Calling 0] ! k = Returning (Inr (vs ! k))
            \<or> ?ts[w := Calling 0] ! k = Done (Inr (vs ! k))"
        proof (cases "k = w")
          case True
          then show ?thesis using wq by simp
        next
          case False
          then have "?ts[w := Calling 0] ! k = ?ts ! k" by simp
          then show ?thesis using D k by simp
        qed
      qed
      then show ?thesis
        unfolding answered_def woke(2) start_body_first [OF M] using r' by simp
    qed
  qed
qed

lemma answered_run:
  assumes M: "0 < maxRetries p"
    and wf: "\<forall>i<length texts. \<exists>j xs. tr i 0 = Resolved (Some j)
               \<and> get_property j ''embedding'' = Inr (Some (JArr xs)) \<and> vs ! i = JArr xs"
  shows "answered vs (foldl (titan_step I p tr m texts) (titan_run I p tr m texts sched) later)"
proof (induction later rule: rev_induct)
  case Nil
  show ?case
  proof (simp, induction sched rule: rev_induct)
    case Nil
    show ?case by (simp add: titan_run_def answered_spawn [OF M])
  next
    case (snoc i sched)
    have "titan_run I p tr m texts (sched @ [i])
          = titan_step I p tr m texts (titan_run I p tr m texts sched) i"
      by (simp add: titan_run_def)
    then show ?case
      using answered_step [OF snoc titan_run_inv M, of tr I m texts i] wf
      by (simp add: titan_run_length)
  qed
next
  case (snoc i later)
  let ?st = "foldl (titan_step I p tr m texts) (titan_run I p tr m texts sched) later"
  have e: "?st = titan_run I p tr m texts (sched @ later)" by (simp add: titan_run_def)
  have inv: "titan_inv (maxConcurrency p) ?st" unfolding e by (rule titan_run_inv)
  have len: "length (tasks ?st) = length texts" unfolding e by (rule titan_run_length)
  show ?case
    using answered_step [OF snoc inv M, of tr I m texts i] wf by (simp add: len)
qed

lemma those_fulfilled: "those (map fulfilled (map (\<lambda>v. Done (Inr v)) vs)) = Some vs"
  by (induction vs) (simp_all add: fulfilled_def)

lemma answered_done_result:
  assumes A: "answered vs st" and d: "\<forall>t \<in> set (tasks st). is_done t"
    and len: "length vs = length (tasks st)"
  shows "titan_result st = Some (Inr \<lparr> embeddings = vs,
            usage = \<lparr> promptTokens = tokens st, totalTokens = tokens st \<rparr> \<rparr>)"
proof -
  have each: "tasks st ! i = Done (Inr (vs ! i))" if "i < length (tasks st)" for i
  proof -
    have "is_done (tasks st ! i)" using d that by simp
    moreover have "tasks st ! i = Queued \<or> tasks st ! i = Calling 0
            \<or> tasks st ! i = Returning (Inr (vs ! i)) \<or> tasks st ! i = Done (Inr (vs ! i))"
      using A that by (simp add: answered_def)
    ultimately show ?thesis by (auto simp: is_done_def)
  qed
  have ts: "tasks st = map (\<lambda>v. Done (Inr v)) vs"
    using len each by (intro nth_equalityI) simp_all
  have "those (map fulfilled (tasks st)) = those (map fulfilled (map (\<lambda>v. Done (Inr v)) vs))"
    by (simp only: ts)
  also have "\<dots> = Some vs" by (rule those_fulfilled)
  finally have "those (map fulfilled (tasks st)) = Some vs" .
  moreover have "rejected st = None" using A by (simp add: answered_def)
  ultimately show ?thesis by (simp add: titan_result_def)
qed

lemma answered_result:
  assumes A: "answered vs st" and len: "length vs = length (tasks st)"
    and r: "titan_result st = Some res"
  shows "\<exists>r. res = Inr r \<and> embeddings r = vs"
proof -
  have rej: "rejected st = None" using A by (simp add: answered_def)
  with r obtain r0 where r0: "res = Inr r0"
    by (auto simp: titan_result_def split: option.splits)
  from titan_result_success [of st r0] r r0
  have l: "length (embeddings r0) = length (tasks st)"
    and t: "\<forall>i<length (tasks st). tasks st ! i = Done (Inr (embeddings r0 ! i))"
    by simp_all
  have "embeddings r0 ! i = vs ! i" if "i < length (tasks st)" for i
  proof -
    have "tasks st ! i = Queued \<or> tasks st ! i = Calling 0
            \<or> tasks st ! i = Returning (Inr (vs ! i)) \<or> tasks st ! i = Done (Inr (vs ! i))"
      using A that by (simp add: answered_def)
    with t that show ?thesis by auto
  qed
  then have "embeddings r0 = vs" using l len by (intro nth_equalityI) simp_all
  with r0 show ?thesis by simp
qed

lemma titan_all_answered:
  assumes P: "0 < maxConcurrency p" and M: "0 < maxRetries p" and len: "length vs = length texts"
    and wf: "\<forall>i<length texts. \<exists>j xs. tr i 0 = Resolved (Some j)
               \<and> get_property j ''embedding'' = Inr (Some (JArr xs)) \<and> vs ! i = JArr xs"
  shows "\<exists>later evs r. processTitanEmbeddings I p tr (sched @ later) texts m = Some (Inr r, evs)
           \<and> embeddings r = vs"
    and "processTitanEmbeddings I p tr sched texts m = Some (res, evs)
           \<Longrightarrow> \<exists>r. res = Inr r \<and> embeddings r = vs"
proof -
  let ?st = "titan_run I p tr m texts sched"
  have inv0: "titan_inv (maxConcurrency p) ?st" by (rule titan_run_inv)
  from runs_to_completion [OF inv0 P, where I = I and tr = tr and m = m and texts = texts and p = p]
  obtain later where d: "\<forall>t \<in> set (tasks (foldl (titan_step I p tr m texts) ?st later)). is_done t"
    by blast
  let ?fin = "foldl (titan_step I p tr m texts) ?st later"
  have e: "?fin = titan_run I p tr m texts (sched @ later)" by (simp add: titan_run_def)
  have A: "answered vs ?fin" by (rule answered_run [where tr = tr and vs = vs, OF M wf])
  have l: "length vs = length (tasks ?fin)" unfolding e using len by (simp add: titan_run_length)
  from answered_done_result [OF A d l]
  have "processTitanEmbeddings I p tr (sched @ later) texts m
        = Some (Inr \<lparr> embeddings = vs,
                     usage = \<lparr> promptTokens = tokens ?fin, totalTokens = tokens ?fin \<rparr> \<rparr>,
                trace ?fin)"
    unfolding processTitanEmbeddings_def e [symmetric] by (simp add: Let_def)
  then show "\<exists>later evs r. processTitanEmbeddings I p tr (sched @ later) texts m = Some (Inr r, evs)
           \<and> embeddings r = vs"
    by (intro exI [of _ later]) simp
next
  assume r: "processTitanEmbeddings I p tr sched texts m = Some (res, evs)"
  let ?st = "titan_run I p tr m texts sched"
  have A: "answered vs ?st"
    using answered_run [where tr = tr and vs = vs and I = I and m = m and sched = sched
        and later = "[]", OF M wf] by simp
  have l: "length vs = length (tasks ?st)" using len by (simp add: titan_run_length)
  from r have "titan_result ?st = Some res"
    by (auto simp: processTitanEmbeddings_def Let_def)
  from answered_result [OF A l this] show "\<exists>r. res = Inr r \<and> embeddings r = vs" .
qed

lemma cohere_decode_array:
  "get_property j ''embeddings'' = Inr (Some (JArr ws)) \<Longrightarrow>
   cohere_decode batch (Some j) = Inr (ws, code_tokens batch)"
  by (simp add: cohere_decode_def JSON_parse_def foldl_tokens)

lemma embedCohereBatch_array:
  assumes "0 < maxRetries p" and "send 0 = Resolved (Some j)"
    and "get_property j ''embeddings'' = Inr (Some (JArr ws))"
  shows "embedCohereBatch I p send c batch m
           = (Inr (ws, code_tokens batch), [Send c 0 (cohere_input p m batch)])"
  using assms(1,2) invoke_first_success [of p send "Some j" I c "cohere_input p m batch"]
    cohere_decode_array [OF assms(3), of batch]
  by (simp add: embedCohereBatch_def)


section \<open>The gated task and the sequential body\<close>

text \<open>
  A call on a single text, with at least one permit, run until its task is done,
  settles to what \<^verbatim>\<open>embedTitanText\<close> returns for that text and has its events:
  the steps of the transition system are the suspension points of the method.
\<close>

lemma embedTitanText_from: "embedTitanText I p send c text m = embedTitanFrom I p send c text m 0"
  by (simp add: embedTitanText_def embedTitanFrom_def invokeModelWithRetries_def)

lemma embedTitanFrom_resolved:
  "int a < maxRetries p \<Longrightarrow> send a = Resolved r \<Longrightarrow>
   embedTitanFrom I p send c text m a = (titan_decode text r, [Send c a (titan_input m text)])"
  by (simp add: embedTitanFrom_def)

lemma embedTitanFrom_thrown:
  "int a < maxRetries p \<Longrightarrow> send a = Rejected err \<Longrightarrow>
   catch_block I (maxRetries p) a err = Throw e \<Longrightarrow>
   embedTitanFrom I p send c text m a = (Inl e, [Send c a (titan_input m text)])"
  by (simp add: embedTitanFrom_def)

lemma embedTitanFrom_retry:
  "int a < maxRetries p \<Longrightarrow> send a = Rejected err \<Longrightarrow>
   catch_block I (maxRetries p) a err = Retry d \<Longrightarrow>
   embedTitanFrom I p send c text m a =
     (fst (embedTitanFrom I p send c text m (a + 1)),
      Send c a (titan_input m text) # Delay c d # snd (embedTitanFrom I p send c text m (a + 1)))"
  by (subst embedTitanFrom_def, subst invokeModelLoop.simps)
     (simp add: embedTitanFrom_def Let_def split: prod.splits sum.splits del: invokeModelLoop.simps)

lemma embedTitanFrom_head:
  assumes "int a < maxRetries p"
  shows "snd (embedTitanFrom I p send c text m a)
         = Send c a (titan_input m text) # tl (snd (embedTitanFrom I p send c text m a))"
proof (cases "send a")
  case (Resolved r)
  then show ?thesis using assms by (simp add: embedTitanFrom_resolved)
next
  case (Rejected err)
  then show ?thesis using assms
    by (cases "catch_block I (maxRetries p) a err")
       (simp_all add: embedTitanFrom_retry embedTitanFrom_thrown)
qed

lemma retry_has_more: "catch_block I M a err = Retry d \<Longrightarrow> int (a + 1) < M"
  by (auto simp: catch_block_def Let_def split: if_splits)

lemma lone_body_run:
  assumes "tasks st = [Calling a]" and "int a < maxRetries p"
  shows "\<exists>k. tasks (foldl (titan_step I p tr m [t]) st (replicate k 0))
               = [Returning (map_sum id fst (fst (embedTitanFrom I p (tr 0) 0 t m a)))]
            \<and> trace (foldl (titan_step I p tr m [t]) st (replicate k 0))
               = trace st @ tl (snd (embedTitanFrom I p (tr 0) 0 t m a))
            \<and> tokens (foldl (titan_step I p tr m [t]) st (replicate k 0))
               = tokens st + (case fst (embedTitanFrom I p (tr 0) 0 t m a) of
                                Inl _ \<Rightarrow> 0 | Inr (_, n) \<Rightarrow> n)
            \<and> rejected (foldl (titan_step I p tr m [t]) st (replicate k 0)) = rejected st"
  using assms
proof (induction "nat (maxRetries p - int a)" arbitrary: a st rule: less_induct)
  case less
  let ?F = "\<lambda>b. embedTitanFrom I p (tr 0) 0 t m b"
  have l: "0 < length (tasks st)" and n: "tasks st ! 0 = Calling a" using less.prems(1) by simp_all
  note step = titan_step_calling [OF l n, of I p tr m "[t]"]
  show ?case
  proof (cases "tr 0 a")
    case (Resolved r)
    have F: "?F a = (titan_decode t r, [Send 0 a (titan_input m t)])"
      using less.prems(2) Resolved by (rule embedTitanFrom_resolved)
    show ?thesis
    proof (cases "titan_decode t r")
      case (Inl e)
      have "titan_step I p tr m [t] st 0 = st\<lparr> tasks := [Returning (Inl e)] \<rparr>"
        unfolding step using Resolved Inl less.prems(1) by simp
      then show ?thesis unfolding F Inl by (intro exI [of _ 1]) simp
    next
      case (Inr vn)
      obtain v k where vn: "vn = (v, k)" by (cases vn)
      have "titan_step I p tr m [t] st 0 = st\<lparr> tasks := [Returning (Inr v)], tokens := tokens st + k \<rparr>"
        unfolding step using Resolved Inr vn less.prems(1) by simp
      then show ?thesis unfolding F Inr vn by (intro exI [of _ 1]) simp
    qed
  next
    case (Rejected err)
    show ?thesis
    proof (cases "catch_block I (maxRetries p) a err")
      case (Throw e)
      have F: "?F a = (Inl e, [Send 0 a (titan_input m t)])"
        using less.prems(2) Rejected Throw by (rule embedTitanFrom_thrown)
      have "titan_step I p tr m [t] st 0 = st\<lparr> tasks := [Returning (Inl e)] \<rparr>"
        unfolding step using Rejected Throw less.prems(1) by simp
      then show ?thesis unfolding F by (intro exI [of _ 1]) simp
    next
      case (Retry d)
      have more: "int (a + 1) < maxRetries p" using Retry by (rule retry_has_more)
      have F: "?F a = (fst (?F (a + 1)), Send 0 a (titan_input m t) # Delay 0 d # snd (?F (a + 1)))"
        using less.prems(2) Rejected Retry by (rule embedTitanFrom_retry)
      have H: "snd (?F (a + 1)) = Send 0 (a + 1) (titan_input m t) # tl (snd (?F (a + 1)))"
        using more by (rule embedTitanFrom_head)
      let ?s1 = "st\<lparr> tasks := [Sleeping a], trace := trace st @ [Delay 0 d] \<rparr>"
      have s1: "titan_step I p tr m [t] st 0 = ?s1"
        unfolding step using Rejected Retry less.prems(1) by simp
      let ?s2 = "?s1\<lparr> tasks := [Calling (a + 1)],
                     trace := trace ?s1 @ [Send 0 (a + 1) (titan_input m t)] \<rparr>"
      have l1: "0 < length (tasks ?s1)" and n1: "tasks ?s1 ! 0 = Sleeping a" by simp_all
      have s2: "titan_step I p tr m [t] ?s1 0 = ?s2"
        unfolding titan_step_sleeping [OF l1 n1] using more by simp
      have t2: "tasks ?s2 = [Calling (a + 1)]" by simp
      have dec: "nat (maxRetries p - int (a + 1)) < nat (maxRetries p - int a)"
        using less.prems(2) by simp
      from less.hyps [OF dec t2 more]
      obtain k where k:
        "tasks (foldl (titan_step I p tr m [t]) ?s2 (replicate k 0))
           = [Returning (map_sum id fst (fst (?F (a + 1))))]"
        "trace (foldl (titan_step I p tr m [t]) ?s2 (replicate k 0))
           = trace ?s2 @ tl (snd (?F (a + 1)))"
        "tokens (foldl (titan_step I p tr m [t]) ?s2 (replicate k 0))
           = tokens ?s2 + (case fst (?F (a + 1)) of Inl _ \<Rightarrow> 0 | Inr (_, n) \<Rightarrow> n)"
        "rejected (foldl (titan_step I p tr m [t]) ?s2 (replicate k 0)) = rejected ?s2"
        by blast
      have run: "foldl (titan_step I p tr m [t]) st (replicate (Suc (Suc k)) 0)
                 = foldl (titan_step I p tr m [t]) ?s2 (replicate k 0)"
        using s1 s2 by simp
      have tr_eq: "trace ?s2 @ tl (snd (?F (a + 1))) = trace st @ tl (snd (?F a))"
      proof -
        have "trace st @ tl (snd (?F a)) = trace st @ Delay 0 d # snd (?F (a + 1))"
          unfolding F by simp
        also have "\<dots> = trace st @ Delay 0 d # Send 0 (a + 1) (titan_input m t) # tl (snd (?F (a + 1)))"
          using H by simp
        finally show ?thesis by simp
      qed
      have fst_eq: "fst (?F a) = fst (?F (a + 1))" unfolding F by simp
      show ?thesis
        apply (rule exI [of _ "Suc (Suc k)"])
        unfolding run k fst_eq tr_eq [symmetric]
        by simp
    qed
  qed
qed

lemma lone_returning_any:
  assumes "tasks st = [Returning r]" and "titan_inv n st"
  shows "titan_step I p tr m [t] st 0 =
           st\<lparr> sem := fst (settle 0 (case r of Inl _ \<Rightarrow> Threw | Inr _ \<Rightarrow> Returned) (sem st)),
                tasks := [Done r],
                rejected := (case rejected st of
                               Some e \<Rightarrow> Some e
                             | None \<Rightarrow> (case r of Inl e \<Rightarrow> Some e | Inr _ \<Rightarrow> None)) \<rparr>"
proof -
  let ?b = "case r of Inl _ \<Rightarrow> Threw | Inr _ \<Rightarrow> Returned"
  have w: "waiting (sem st) = []"
    using assms by (intro lone_no_waiting [of st "Returning r" n]) simp_all
  have r: "0 \<in> set (running (sem st))"
    using assms by (intro lone_running [of st "Returning r" n]) (simp_all add: active_def)
  have se: "snd (settle 0 ?b (sem st)) = None"
    using settle_effect [OF r, of ?b] w by simp
  have l: "0 < length (tasks st)" and n: "tasks st ! 0 = Returning r" using assms(1) by simp_all
  have "titan_step I p tr m [t] st 0 =
          launch p m [t] None
             (st\<lparr> sem := fst (settle 0 ?b (sem st)),
                  tasks := (tasks st)[0 := Done r],
                  rejected := (case rejected st of
                                 Some e \<Rightarrow> Some e
                               | None \<Rightarrow> (case r of Inl e \<Rightarrow> Some e | Inr _ \<Rightarrow> None)) \<rparr>)"
    unfolding titan_step_returning [OF l n] using se by simp
  also have "\<dots> = st\<lparr> sem := fst (settle 0 ?b (sem st)), tasks := (tasks st)[0 := Done r],
                rejected := (case rejected st of
                               Some e \<Rightarrow> Some e
                             | None \<Rightarrow> (case r of Inl e \<Rightarrow> Some e | Inr _ \<Rightarrow> None)) \<rparr>"
    by (simp add: launch_def)
  also have "(tasks st)[0 := Done r] = [Done r]" unfolding assms(1) by simp
  finally show ?thesis .
qed

lemma titan_spawn_no_attempt:
  assumes "0 < maxConcurrency p" and "\<not> 0 < maxRetries p"
  shows "titan_spawn p m [t] =
     \<lparr> sem = run_body 0 (new_Semaphore (maxConcurrency p)),
       tasks = [Returning (Inl (FailedMaxAttempts (maxRetries p)))], tokens = 0,
       rejected = None, trace = [] \<rparr>"
proof -
  have a: "acquire 0 (new_Semaphore (maxConcurrency p)) = (run_body 0 (new_Semaphore (maxConcurrency p)), Some 0)"
    using assms(1) by (simp add: acquire_def new_Semaphore_def)
  have b: "start_body p m [t] 0 = (Returning (Inl (FailedMaxAttempts (maxRetries p))), [])"
    using assms(2) by (simp add: start_body_def)
  have "titan_spawn p m [t] = spawn_one p m [t] (titan_init p) 0"
    by (simp add: titan_spawn_def)
  also have "\<dots> = \<lparr> sem = run_body 0 (new_Semaphore (maxConcurrency p)),
       tasks = [Returning (Inl (FailedMaxAttempts (maxRetries p)))], tokens = 0,
       rejected = None, trace = [] \<rparr>"
    by (simp add: spawn_one_def titan_init_def a launch_def b)
  finally show ?thesis .
qed

lemma lone_result:
  assumes "tasks st = [Done r]"
    and "rejected st = (case r of Inl e \<Rightarrow> Some e | Inr _ \<Rightarrow> None)"
  shows "titan_result st =
           Some (case r of
                   Inl e \<Rightarrow> Inl e
                 | Inr v \<Rightarrow> Inr \<lparr> embeddings = [v],
                                 usage = \<lparr> promptTokens = tokens st, totalTokens = tokens st \<rparr> \<rparr>)"
  using assms by (cases r) (simp_all add: titan_result_def fulfilled_def)

lemma single_text_run:
  assumes P: "0 < maxConcurrency p"
  shows "\<exists>k. processTitanEmbeddings I p tr (replicate k 0) [t] m =
           Some (case embedTitanText I p (tr 0) 0 t m of
                   (Inl e, evs) \<Rightarrow> (Inl e, evs)
                 | (Inr (v, n), evs) \<Rightarrow>
                     (Inr \<lparr> embeddings = [v],
                            usage = \<lparr> promptTokens = n, totalTokens = n \<rparr> \<rparr>, evs))"
proof (cases "0 < maxRetries p")
  case True
  let ?F = "embedTitanFrom I p (tr 0) 0 t m 0"
  let ?s0 = "titan_spawn p m [t]"
  have s0: "tasks ?s0 = [Calling 0]" "tokens ?s0 = 0" "rejected ?s0 = None"
    "trace ?s0 = [Send 0 0 (titan_input m t)]"
    by (simp_all add: titan_spawn_single [OF P True])
  have a0: "int 0 < maxRetries p" using True by simp
  from lone_body_run [OF s0(1) a0, of I tr m t]
  obtain k where k:
    "tasks (foldl (titan_step I p tr m [t]) ?s0 (replicate k 0)) = [Returning (map_sum id fst (fst ?F))]"
    "trace (foldl (titan_step I p tr m [t]) ?s0 (replicate k 0)) = trace ?s0 @ tl (snd ?F)"
    "tokens (foldl (titan_step I p tr m [t]) ?s0 (replicate k 0))
       = tokens ?s0 + (case fst ?F of Inl _ \<Rightarrow> 0 | Inr (_, n) \<Rightarrow> n)"
    "rejected (foldl (titan_step I p tr m [t]) ?s0 (replicate k 0)) = rejected ?s0"
    by blast
  let ?s1 = "titan_run I p tr m [t] (replicate k 0)"
  have e1: "foldl (titan_step I p tr m [t]) ?s0 (replicate k 0) = ?s1" by (simp add: titan_run_def)
  have inv1: "titan_inv (maxConcurrency p) ?s1" by (rule titan_run_inv)
  have tr1: "trace ?s1 = snd ?F"
    using k(2) s0(4) embedTitanFrom_head [OF a0, of I "tr 0" 0 t m] unfolding e1 by simp
  let ?R = "map_sum id fst (fst ?F)"
  let ?s2 = "titan_run I p tr m [t] (replicate (Suc k) 0)"
  have rep: "replicate (Suc k) (0::nat) = replicate k 0 @ [0]"
    by (induction k) simp_all
  have "?s2 = titan_step I p tr m [t] ?s1 0"
    unfolding titan_run_def rep by simp
  then have s2: "?s2 = ?s1\<lparr> sem := fst (settle 0 (case ?R of Inl _ \<Rightarrow> Threw | Inr _ \<Rightarrow> Returned) (sem ?s1)),
                tasks := [Done ?R],
                rejected := (case rejected ?s1 of
                               Some e \<Rightarrow> Some e
                             | None \<Rightarrow> (case ?R of Inl e \<Rightarrow> Some e | Inr _ \<Rightarrow> None)) \<rparr>"
    using lone_returning_any [OF k(1) [unfolded e1] inv1, of I p tr m t] by simp
  have t2: "tasks ?s2 = [Done ?R]" unfolding s2 by simp
  have r2: "rejected ?s2 = (case ?R of Inl e \<Rightarrow> Some e | Inr _ \<Rightarrow> None)"
    unfolding s2 using k(4) s0(3) unfolding e1 by simp
  have tok2: "tokens ?s2 = (case fst ?F of Inl _ \<Rightarrow> 0 | Inr (_, n) \<Rightarrow> n)"
    unfolding s2 using k(3) s0(2) unfolding e1 by simp
  have tr2: "trace ?s2 = snd ?F" unfolding s2 using tr1 by simp
  have "processTitanEmbeddings I p tr (replicate (Suc k) 0) [t] m =
           Some (case embedTitanText I p (tr 0) 0 t m of
                   (Inl e, evs) \<Rightarrow> (Inl e, evs)
                 | (Inr (v, n), evs) \<Rightarrow>
                     (Inr \<lparr> embeddings = [v],
                            usage = \<lparr> promptTokens = n, totalTokens = n \<rparr> \<rparr>, evs))"
    unfolding processTitanEmbeddings_def Let_def lone_result [OF t2 r2] tr2 tok2 embedTitanText_from
    by (cases ?F; cases "fst ?F") (auto split: prod.splits)
  then show ?thesis by blast
next
  case False
  let ?e = "FailedMaxAttempts (maxRetries p)"
  let ?s0 = "titan_spawn p m [t]"
  have s0: "tasks ?s0 = [Returning (Inl ?e)]" "rejected ?s0 = None" "trace ?s0 = []"
    by (simp_all add: titan_spawn_no_attempt [OF P False])
  have inv0: "titan_inv (maxConcurrency p) ?s0" by (rule titan_spawn_inv)
  let ?s1 = "titan_step I p tr m [t] ?s0 0"
  have s1: "?s1 = ?s0\<lparr> sem := fst (settle 0 Threw (sem ?s0)), tasks := [Done (Inl ?e)],
                rejected := Some ?e \<rparr>"
    using lone_returning_any [OF s0(1) inv0, of I p tr m t] s0(2) by simp
  have res: "titan_result ?s1 = Some (Inl ?e)" unfolding s1 by (simp add: titan_result_def)
  have tr1: "trace ?s1 = []" unfolding s1 using s0(3) by simp
  have F: "embedTitanText I p (tr 0) 0 t m = (Inl ?e, [])"
    using False by (simp add: embedTitanText_def invokeModelWithRetries_def)
  have "processTitanEmbeddings I p tr (replicate 1 0) [t] m = Some (Inl ?e, [])"
    using res tr1 by (simp add: processTitanEmbeddings_def titan_run_def Let_def)
  then show ?thesis unfolding F by (intro exI [of _ 1]) simp
qed

section \<open>The requests of the gated calls\<close>

lemma launch_trace:
  "trace (launch p m texts w st) =
     (case w of None \<Rightarrow> trace st | Some j \<Rightarrow> trace st @ snd (start_body p m texts j))"
  by (cases w) (simp_all add: launch_def split: prod.splits)






lemma settle_wakes_head:
  assumes "i \<in> set (running s)"
  shows "snd (settle i b s) = (case waiting s of [] \<Rightarrow> None | w # ws \<Rightarrow> Some w)"
  using assms by (cases b) (auto simp: settle_def finally_block_def Let_def split: list.splits)

lemma titan_step_finally:
  assumes i: "i < length (tasks st)" and r: "tasks st ! i = Returning r" and inv: "titan_inv n st"
  shows "rejected (titan_step I p tr m texts st i)
           = (case rejected st of
                Some e \<Rightarrow> Some e
              | None \<Rightarrow> (case r of Inl e \<Rightarrow> Some e | Inr _ \<Rightarrow> None))"
    and "waiting (sem st) = [] \<Longrightarrow>
           tasks (titan_step I p tr m texts st i) = (tasks st)[i := Done r]
           \<and> trace (titan_step I p tr m texts st i) = trace st"
    and "waiting (sem st) = w # ws \<Longrightarrow>
           tasks (titan_step I p tr m texts st i)
             = (tasks st)[i := Done r, w := fst (start_body p m texts w)]
           \<and> trace (titan_step I p tr m texts st i) = trace st @ snd (start_body p m texts w)"
proof -
  have run: "i \<in> set (running (sem st))"
    using inv i r by (simp add: titan_inv_def active_def)
  note hd = settle_wakes_head [OF run]
  show "rejected (titan_step I p tr m texts st i)
           = (case rejected st of
                Some e \<Rightarrow> Some e
              | None \<Rightarrow> (case r of Inl e \<Rightarrow> Some e | Inr _ \<Rightarrow> None))"
    unfolding titan_step_returning [OF i r] by simp
  show "waiting (sem st) = [] \<Longrightarrow>
           tasks (titan_step I p tr m texts st i) = (tasks st)[i := Done r]
           \<and> trace (titan_step I p tr m texts st i) = trace st"
    unfolding titan_step_returning [OF i r] by (simp add: hd launch_tasks launch_trace)
  show "waiting (sem st) = w # ws \<Longrightarrow>
           tasks (titan_step I p tr m texts st i)
             = (tasks st)[i := Done r, w := fst (start_body p m texts w)]
           \<and> trace (titan_step I p tr m texts st i) = trace st @ snd (start_body p m texts w)"
    unfolding titan_step_returning [OF i r] by (simp add: hd launch_tasks launch_trace)
qed





section \<open>The first terminal failure: what is stopped and what is not\<close>







lemma titan_input_request:
  "titan_input m t = \<lparr> modelId = m, contentType = ''application/json'',
                        accept = ''application/json'', body = TitanBody t \<rparr>"
  by (simp add: titan_input_def)








section \<open>Order of the embeddings: the requests\<close>

lemma asked_same:
  assumes A: "asked m texts st" and i: "i < length (tasks st)"
    and old: "tasks st ! i \<noteq> Queued" and new: "t \<noteq> Queued"
    and tk: "tasks st' = (tasks st)[i := t]" and tr: "trace st' = trace st"
  shows "asked m texts st'"
proof -
  have "{j. j < length ((tasks st)[i := t]) \<and> (tasks st)[i := t] ! j \<noteq> Queued}
        = {j. j < length (tasks st) \<and> tasks st ! j \<noteq> Queued}"
    using i old new by (intro update_same_class) simp_all
  then have "{j. j < length (tasks st') \<and> tasks st' ! j \<noteq> Queued}
        = {j. j < length (tasks st) \<and> tasks st ! j \<noteq> Queued}"
    by (simp only: tk)
  then show ?thesis using A unfolding asked_def tr by simp
qed

lemma asked_start:
  assumes A: "asked m texts st" and w: "w < length (tasks st)"
    and old: "tasks st ! w = Queued" and new: "t \<noteq> Queued"
    and tk: "tasks st' = (tasks st)[w := t]"
    and tr: "trace st' = trace st @ [Send w 0 (titan_input m (texts ! w))]"
  shows "asked m texts st'"
proof -
  let ?C = "{j. j < length (tasks st) \<and> tasks st ! j \<noteq> Queued}"
  have c: "{j. j < length ((tasks st)[w := t]) \<and> (tasks st)[w := t] ! j \<noteq> Queued} = insert w ?C"
    using w new by (intro update_enters_class) simp_all
  have notin: "w \<notin> ?C" using old by simp
  have fin: "finite ?C" by simp
  have c': "{j. j < length (tasks st') \<and> tasks st' ! j \<noteq> Queued} = insert w ?C"
    using c by (simp only: tk)
  have k: "card (insert w ?C) = Suc (card ?C)" using notin fin by simp
  have "set (trace st) = (\<lambda>i. Send i 0 (titan_input m (texts ! i))) ` ?C"
    and "length (trace st) = card ?C"
    using A by (simp_all add: asked_def)
  then show ?thesis unfolding asked_def c' tr k by simp
qed

lemma asked_spawn_one:
  assumes A: "asked m texts st" and M: "0 < maxRetries p"
  shows "asked m texts (spawn_one p m texts st (length (tasks st)))"
proof -
  let ?n = "length (tasks st)"
  let ?st0 = "st\<lparr> tasks := tasks st @ [Queued] \<rparr>"
  have "{j. j < length (tasks st @ [Queued]) \<and> (tasks st @ [Queued]) ! j \<noteq> Queued}
        = {j. j < length (tasks st) \<and> tasks st ! j \<noteq> Queued}"
    by (auto simp: nth_append less_Suc_eq)
  then have A0: "asked m texts ?st0" using A by (simp add: asked_def)
  show ?thesis
  proof (cases "permits (sem st) > 0")
    case False
    have "tasks (spawn_one p m texts st ?n) = tasks ?st0"
      "trace (spawn_one p m texts st ?n) = trace ?st0"
      using False by (simp_all add: spawn_one_def acquire_def launch_def)
    with A0 show ?thesis by (simp add: asked_def)
  next
    case True
    have sb: "start_body p m texts ?n = (Calling 0, [Send ?n 0 (titan_input m (texts ! ?n))])"
      using M by (simp add: start_body_def)
    have tk: "tasks (spawn_one p m texts st ?n) = (tasks ?st0)[?n := Calling 0]"
      and tr: "trace (spawn_one p m texts st ?n)
                 = trace ?st0 @ [Send ?n 0 (titan_input m (texts ! ?n))]"
      using True by (simp_all add: spawn_one_def acquire_def launch_tasks launch_trace sb)
    show ?thesis
      by (rule asked_start [OF A0 _ _ _ tk tr]) simp_all
  qed
qed

lemma asked_prefix:
  assumes "0 < maxRetries p"
  shows "asked m texts (foldl (spawn_one p m texts) (titan_init p) [0..<k])"
proof (induction k)
  case 0
  show ?case by (simp add: asked_def titan_init_def)
next
  case (Suc k)
  have len: "length (tasks (foldl (spawn_one p m texts) (titan_init p) [0..<k])) = k"
    using spawn_prefix [of p m texts k] by simp
  show ?case using asked_spawn_one [OF Suc assms] by (simp add: len)
qed

lemma asked_step:
  assumes Q: "asked m texts st" and A: "answered vs st" and inv: "titan_inv n st"
    and M: "0 < maxRetries p"
    and wf: "\<forall>i<length (tasks st). \<exists>j xs. tr i 0 = Resolved (Some j)
               \<and> get_property j ''embedding'' = Inr (Some (JArr xs)) \<and> vs ! i = JArr xs"
  shows "asked m texts (titan_step I p tr m texts st i)"
proof -
  let ?st' = "titan_step I p tr m texts st i"
  consider (idle) "\<not> i < length (tasks st) \<or> tasks st ! i = Queued \<or> is_done (tasks st ! i)"
    | (calling) "i < length (tasks st)" "tasks st ! i = Calling 0"
    | (ret) "i < length (tasks st)" "tasks st ! i = Returning (Inr (vs ! i))"
    using A by (cases "i < length (tasks st)") (auto simp: answered_def is_done_def)
  then show ?thesis
  proof cases
    case idle
    then show ?thesis using Q by (simp add: titan_step_idle)
  next
    case calling
    from wf calling(1) obtain j xs where j: "tr i 0 = Resolved (Some j)"
      "get_property j ''embedding'' = Inr (Some (JArr xs))" "vs ! i = JArr xs"
      by blast
    have d: "titan_decode (texts ! i) (Some j) = Inr (JArr xs, estimate_tokens (texts ! i))"
      using j(2) by (rule titan_decode_array)
    have step: "?st' = st\<lparr> tasks := (tasks st)[i := Returning (Inr (vs ! i))],
            tokens := tokens st + estimate_tokens (texts ! i) \<rparr>"
      unfolding titan_step_calling [OF calling] using j(1,3) d by simp
    show ?thesis
      by (rule asked_same [OF Q calling(1), where t = "Returning (Inr (vs ! i))"])
         (simp_all add: calling(2) step)
  next
    case ret
    let ?r = "Inr (vs ! i) :: error + json"
    let ?mid = "st\<lparr> tasks := (tasks st)[i := Done ?r] \<rparr>"
    have Qm: "asked m texts ?mid"
      by (rule asked_same [OF Q ret(1), where t = "Done ?r"]) (simp_all add: ret(2))
    note F = titan_step_finally [OF ret inv, where I = I and p = p and tr = tr and m = m
        and texts = texts]
    show ?thesis
    proof (cases "waiting (sem st)")
      case Nil
      from F(2) [OF Nil] have "tasks ?st' = tasks ?mid" "trace ?st' = trace ?mid" by simp_all
      with Qm show ?thesis by (simp add: asked_def)
    next
      case (Cons w ws)
      have wq: "w < length (tasks st)" "tasks st ! w = Queued"
        using inv Cons by (auto simp: titan_inv_def)
      have wi: "w \<noteq> i" using wq(2) ret(2) by auto
      have sb: "start_body p m texts w = (Calling 0, [Send w 0 (titan_input m (texts ! w))])"
        using M by (simp add: start_body_def)
      from F(3) [OF Cons]
      have tk: "tasks ?st' = (tasks ?mid)[w := Calling 0]"
        and tr: "trace ?st' = trace ?mid @ [Send w 0 (titan_input m (texts ! w))]"
        by (simp_all add: sb)
      show ?thesis
        by (rule asked_start [OF Qm _ _ _ tk tr]) (use wq wi in simp_all)
    qed
  qed
qed

lemma asked_run:
  assumes M: "0 < maxRetries p"
    and wf: "\<forall>i<length texts. \<exists>j xs. tr i 0 = Resolved (Some j)
               \<and> get_property j ''embedding'' = Inr (Some (JArr xs)) \<and> vs ! i = JArr xs"
  shows "asked m texts (titan_run I p tr m texts sched)"
proof (induction sched rule: rev_induct)
  case Nil
  show ?case using asked_prefix [OF M] by (simp add: titan_run_def titan_spawn_def)
next
  case (snoc i sched)
  let ?st = "titan_run I p tr m texts sched"
  have A: "answered vs ?st"
    using answered_run [where tr = tr and vs = vs and I = I and m = m and sched = sched
        and later = "[]", OF M wf] by simp
  have inv: "titan_inv (maxConcurrency p) ?st" by (rule titan_run_inv)
  have wf': "\<forall>i<length (tasks ?st). \<exists>j xs. tr i 0 = Resolved (Some j)
               \<and> get_property j ''embedding'' = Inr (Some (JArr xs)) \<and> vs ! i = JArr xs"
    using wf by (simp add: titan_run_length)
  have "titan_run I p tr m texts (sched @ [i]) = titan_step I p tr m texts ?st i"
    by (simp add: titan_run_def)
  then show ?case
    using asked_step [where tr = tr and vs = vs, OF snoc A inv M wf'] by simp
qed

lemma asked_all_done:
  assumes Q: "asked m texts st" and d: "\<forall>i<length (tasks st). tasks st ! i \<noteq> Queued"
  shows "set (trace st) = (\<lambda>i. Send i 0 (titan_input m (texts ! i))) ` {..<length (tasks st)}
         \<and> length (trace st) = length (tasks st)"
proof -
  have "{i. i < length (tasks st) \<and> tasks st ! i \<noteq> Queued} = {..<length (tasks st)}"
    using d by auto
  then show ?thesis using Q by (simp add: asked_def)
qed

lemma titan_all_asked:
  assumes M: "0 < maxRetries p"
    and wf: "\<forall>i<length texts. \<exists>j xs. tr i 0 = Resolved (Some j)
               \<and> get_property j ''embedding'' = Inr (Some (JArr xs)) \<and> vs ! i = JArr xs"
    and r: "processTitanEmbeddings I p tr sched texts m = Some (Inr r, evs)"
  shows "set evs = (\<lambda>i. Send i 0 (titan_input m (texts ! i))) ` {..<length texts}
         \<and> length evs = length texts"
proof -
  let ?st = "titan_run I p tr m texts sched"
  have Q: "asked m texts ?st" by (rule asked_run [where tr = tr and vs = vs, OF M wf])
  from r have res: "titan_result ?st = Some (Inr r)" and evs: "evs = trace ?st"
    by (auto simp: processTitanEmbeddings_def Let_def)
  from titan_result_success [of ?st r] res
  have "\<forall>i<length (tasks ?st). tasks ?st ! i = Done (Inr (embeddings r ! i))" by simp
  then have "\<forall>i<length (tasks ?st). tasks ?st ! i \<noteq> Queued" by auto
  from asked_all_done [OF Q this] show ?thesis
    unfolding evs by (simp add: titan_run_length)
qed

lemma chunk_count:
  fixes b c n :: nat
  assumes "0 < b"
  shows "(c * b < n) = (c < (n + b - 1) div b)"
proof -
  have "(c < (n + b - 1) div b) = (Suc c \<le> (n + b - 1) div b)" by auto
  also have "\<dots> = (Suc c * b \<le> n + b - 1)"
    using assms by (simp only: less_eq_div_iff_mult_less_eq)
  also have "\<dots> = (c * b < n)" using assms by auto
  finally show ?thesis by simp
qed

lemma cohere_input_request:
  "cohere_input p m batch =
     \<lparr> modelId = m, contentType = ''application/json'', accept = ''application/json'',
       body = CohereBody batch
                (case inputType p of
                   None \<Rightarrow> ''search_document''
                 | Some t \<Rightarrow> if t = [] then ''search_document'' else t) \<rparr>"
  by (simp add: cohere_input_def)

lemma cohere_loop_all_asked:
  assumes bs: "0 < batchSize p" and M: "0 < maxRetries p" and len: "length vs = length texts"
    and wf: "\<forall>c. c * nat (batchSize p) < length texts \<longrightarrow>
               (\<exists>j. tr c 0 = Resolved (Some j)
                  \<and> get_property j ''embeddings''
                      = Inr (Some (JArr (take (nat (batchSize p)) (drop (c * nat (batchSize p)) vs)))))"
  shows "\<exists>r. cohere_loop I p tr texts m (int (c * nat (batchSize p))) c acc tot evs
               = Some (Inr r,
                       evs @ map (\<lambda>k. Send k 0 (cohere_input p m
                                     (take (nat (batchSize p)) (drop (k * nat (batchSize p)) texts))))
                                 [c..<(length texts + nat (batchSize p) - 1) div nat (batchSize p)])
           \<and> embeddings r = acc @ drop (c * nat (batchSize p)) vs"
proof (induction "length texts - c * nat (batchSize p)" arbitrary: c acc tot evs rule: less_induct)
  case less
  let ?b = "nat (batchSize p)"
  let ?N = "(length texts + ?b - 1) div ?b"
  let ?i = "int (c * ?b)"
  have b0: "0 < ?b" using bs by simp
  show ?case
  proof (cases "c * ?b < length texts")
    case False
    have nlt: "\<not> ?i < int (length texts)"
      using False of_nat_less_iff [of "c * ?b" "length texts", where ?'a = int] by blast
    have ex: "cohere_loop I p tr texts m ?i c acc tot evs =
            Some (Inr \<lparr> embeddings = acc, usage = \<lparr> promptTokens = tot, totalTokens = tot \<rparr> \<rparr>, evs)"
      by (rule cohere_loop_exit [OF nlt])
    have "drop (c * ?b) vs = []" using False len by simp
    moreover have "\<not> c < ?N" using False chunk_count [OF b0, of c "length texts"] by simp
    then have "[c..<?N] = []" by simp
    ultimately show ?thesis using ex by simp
  next
    case True
    from wf True obtain j where j: "tr c 0 = Resolved (Some j)"
      "get_property j ''embeddings'' = Inr (Some (JArr (take ?b (drop (c * ?b) vs))))"
      by blast
    let ?batch = "js_slice texts ?i (?i + batchSize p)"
    have batch: "?batch = take ?b (drop (c * ?b) texts)"
      using js_slice_chunk [of ?i "batchSize p" texts] bs by (simp add: nat_mult_distrib)
    have emb: "embedCohereBatch I p (tr c) c ?batch m
           = (Inr (take ?b (drop (c * ?b) vs), code_tokens ?batch), [Send c 0 (cohere_input p m ?batch)])"
      using M j by (intro embedCohereBatch_array) simp_all
    have lt: "?i < int (length texts)"
      using True of_nat_less_iff [of "c * ?b" "length texts", where ?'a = int] by blast
    have nxt: "?i + batchSize p = int ((c + 1) * ?b)" using bs by (simp add: algebra_simps)
    have step: "cohere_loop I p tr texts m ?i c acc tot evs =
        cohere_loop I p tr texts m (int ((c + 1) * ?b)) (c + 1) (acc @ take ?b (drop (c * ?b) vs))
          (tot + code_tokens ?batch) (evs @ [Send c 0 (cohere_input p m ?batch)])"
      using cohere_loop_success_step [where tr = tr and c = c and acc = acc and tot = tot
          and evs = evs, OF lt emb] by (simp only: nxt)
    have dec: "length texts - (c + 1) * ?b < length texts - c * ?b" using True b0 by simp
    from less [OF dec, of "acc @ take ?b (drop (c * ?b) vs)" "tot + code_tokens ?batch"
        "evs @ [Send c 0 (cohere_input p m ?batch)]"]
    obtain r where r: "cohere_loop I p tr texts m (int ((c + 1) * ?b)) (c + 1)
          (acc @ take ?b (drop (c * ?b) vs)) (tot + code_tokens ?batch)
          (evs @ [Send c 0 (cohere_input p m ?batch)])
          = Some (Inr r, (evs @ [Send c 0 (cohere_input p m ?batch)])
                  @ map (\<lambda>k. Send k 0 (cohere_input p m (take ?b (drop (k * ?b) texts))))
                        [c + 1..<?N])"
      "embeddings r = (acc @ take ?b (drop (c * ?b) vs)) @ drop ((c + 1) * ?b) vs"
      by blast
    have "take ?b (drop (c * ?b) vs) @ drop ((c + 1) * ?b) vs = drop (c * ?b) vs"
    proof -
      have "drop ((c + 1) * ?b) vs = drop ?b (drop (c * ?b) vs)" by (simp add: add.commute)
      then show ?thesis by (simp only: append_take_drop_id)
    qed
    then have e: "embeddings r = acc @ drop (c * ?b) vs" using r(2) by simp
    have cN: "c < ?N" using True chunk_count [OF b0, of c "length texts"] by simp
    have up: "[c..<?N] = c # [c + 1..<?N]" using cN by (simp add: upt_conv_Cons)
    have "(evs @ [Send c 0 (cohere_input p m ?batch)])
                  @ map (\<lambda>k. Send k 0 (cohere_input p m (take ?b (drop (k * ?b) texts))))
                        [c + 1..<?N]
          = evs @ map (\<lambda>k. Send k 0 (cohere_input p m (take ?b (drop (k * ?b) texts)))) [c..<?N]"
      unfolding up batch by simp
    with r(1) step e show ?thesis by simp
  qed
qed

text \<open>
  C1, for a configuration that admits a call. Let \<^verbatim>\<open>maxRetries\<close> be positive, and
  \<^verbatim>\<open>maxConcurrency\<close> (Titan) or \<^verbatim>\<open>batchSize\<close> (Cohere) be positive; let the model be
  of a supported family and let the transport answer the first attempt of every call
  with a well-formed response: for Titan the vector \<open>vs ! i\<close> to call \<open>i\<close>, for Cohere
  the vectors of the texts of chunk \<open>c\<close>, in order, to call \<open>c\<close>. Then
  \<^item> whatever the order in which the pending continuations have run so far, the run
    can be carried on to the end, where \<^verbatim>\<open>createEmbeddings\<close> returns a response whose
    embeddings are \<open>vs\<close>, one per text and in the order of the texts;
  \<^item> under no schedule does it return anything else;
  \<^item> the requests sent are exactly one per text, call \<open>i\<close> carrying text \<open>i\<close> (Titan),
    or exactly one per chunk and in the order of the chunks, call \<open>c\<close> carrying the
    texts of chunk \<open>c\<close> (Cohere).
\<close>

theorem embeddings_in_input_order:
  assumes m: "m = effective_model p model"
    and retries: "0 < maxRetries p"
    and gate: "isTitanModel m \<longrightarrow> 0 < maxConcurrency p"
    and chunks: "isCohereModel m \<longrightarrow> 0 < batchSize p"
    and len: "length vs = length texts"
    and family: "isTitanModel m \<or> isCohereModel m"
    and titan: "isTitanModel m \<longrightarrow>
          (\<forall>i<length texts. \<exists>j xs. tr i 0 = Resolved (Some j)
               \<and> get_property j ''embedding'' = Inr (Some (JArr xs)) \<and> vs ! i = JArr xs)"
    and cohere: "isCohereModel m \<longrightarrow>
          (\<forall>c. c * nat (batchSize p) < length texts \<longrightarrow>
               (\<exists>j. tr c 0 = Resolved (Some j)
                  \<and> get_property j ''embeddings''
                      = Inr (Some (JArr (take (nat (batchSize p)) (drop (c * nat (batchSize p)) vs))))))"
  shows "(\<forall>sched. \<exists>later r evs.
            createEmbeddings INITIAL_RETRY_DELAY_MS p tr (sched @ later) texts model = Some (Inr r, evs)
            \<and> embeddings r = vs \<and> length (embeddings r) = length texts)
         \<and> (\<forall>sched res evs.
            createEmbeddings INITIAL_RETRY_DELAY_MS p tr sched texts model = Some (res, evs) \<longrightarrow>
            (\<exists>r. res = Inr r \<and> embeddings r = vs \<and> length (embeddings r) = length texts)
            \<and> (isTitanModel m \<longrightarrow>
                 set evs = (\<lambda>i. Send i 0 \<lparr> modelId = m, contentType = ''application/json'',
                                            accept = ''application/json'',
                                            body = TitanBody (texts ! i) \<rparr>) ` {..<length texts}
                 \<and> length evs = length texts)
            \<and> (\<not> isTitanModel m \<longrightarrow>
                 evs = map (\<lambda>c. Send c 0
                              \<lparr> modelId = m, contentType = ''application/json'',
                                accept = ''application/json'',
                                body = CohereBody
                                         (take (nat (batchSize p)) (drop (c * nat (batchSize p)) texts))
                                         (case inputType p of
                                            None \<Rightarrow> ''search_document''
                                          | Some t \<Rightarrow> if t = [] then ''search_document'' else t) \<rparr>)
                           [0..<(length texts + nat (batchSize p) - 1) div nat (batchSize p)]))"
proof (cases "isTitanModel m")
  case True
  have wf: "\<forall>i<length texts. \<exists>j xs. tr i 0 = Resolved (Some j)
               \<and> get_property j ''embedding'' = Inr (Some (JArr xs)) \<and> vs ! i = JArr xs"
    using titan True by simp
  have conc: "0 < maxConcurrency p" using gate True by simp
  note T = titan_all_answered [where tr = tr and vs = vs and I = INITIAL_RETRY_DELAY_MS and m = m,
      OF conc retries len wf]
  have ce: "createEmbeddings INITIAL_RETRY_DELAY_MS p tr sc texts model
        = map_option finish (processTitanEmbeddings INITIAL_RETRY_DELAY_MS p tr sc texts m)" for sc
    using True m by (simp add: createEmbeddings_def Let_def)
  have A: "\<exists>later r evs.
            createEmbeddings INITIAL_RETRY_DELAY_MS p tr (sched @ later) texts model = Some (Inr r, evs)
            \<and> embeddings r = vs \<and> length (embeddings r) = length texts" for sched
  proof -
    from T(1) [of sched] obtain later evs r where
      r: "processTitanEmbeddings INITIAL_RETRY_DELAY_MS p tr (sched @ later) texts m = Some (Inr r, evs)"
      "embeddings r = vs" by blast
    let ?r = "\<lparr> embeddings = [] @ embeddings r,
                usage = \<lparr> promptTokens = promptTokens (usage r),
                          totalTokens = totalTokens (usage r) \<rparr> \<rparr>"
    have "createEmbeddings INITIAL_RETRY_DELAY_MS p tr (sched @ later) texts model = Some (Inr ?r, evs)"
      unfolding ce r(1) by (simp add: finish_def)
    moreover have "embeddings ?r = vs" "length (embeddings ?r) = length texts"
      using r(2) len by simp_all
    ultimately show ?thesis by blast
  qed
  have B: "(\<exists>r. res = Inr r \<and> embeddings r = vs \<and> length (embeddings r) = length texts)
           \<and> set evs = (\<lambda>i. Send i 0 \<lparr> modelId = m, contentType = ''application/json'',
                                      accept = ''application/json'',
                                      body = TitanBody (texts ! i) \<rparr>) ` {..<length texts}
           \<and> length evs = length texts"
    if "createEmbeddings INITIAL_RETRY_DELAY_MS p tr sched texts model = Some (res, evs)"
    for sched res evs
  proof -
    from that obtain x where x: "processTitanEmbeddings INITIAL_RETRY_DELAY_MS p tr sched texts m = Some x"
      "finish x = (res, evs)" unfolding ce by auto
    obtain res0 evs0 where x0: "x = (res0, evs0)" by (cases x)
    from T(2) [of sched res0 evs0] x(1) x0 obtain r0 where r0: "res0 = Inr r0" "embeddings r0 = vs"
      by blast
    have ev: "evs = evs0" using x(2) x0 r0(1) by (simp add: finish_def)
    have pr: "processTitanEmbeddings INITIAL_RETRY_DELAY_MS p tr sched texts m = Some (Inr r0, evs)"
      using x(1) x0 r0(1) ev by simp
    from titan_all_asked [where tr = tr and vs = vs, OF retries wf pr]
    have "set evs = (\<lambda>i. Send i 0 (titan_input m (texts ! i))) ` {..<length texts}"
      and "length evs = length texts" by simp_all
    moreover have "\<exists>r. res = Inr r \<and> embeddings r = vs \<and> length (embeddings r) = length texts"
      using r0 x(2) x0 len by (auto simp: finish_def)
    ultimately show ?thesis unfolding titan_input_request by simp
  qed
  show ?thesis using A B True by blast
next
  case False
  have C: "isCohereModel m" using family False by simp
  have wf: "\<forall>c. c * nat (batchSize p) < length texts \<longrightarrow>
               (\<exists>j. tr c 0 = Resolved (Some j)
                  \<and> get_property j ''embeddings''
                      = Inr (Some (JArr (take (nat (batchSize p)) (drop (c * nat (batchSize p)) vs)))))"
    using cohere C by simp
  have bs: "0 < batchSize p" using chunks C by simp
  let ?es = "map (\<lambda>k. Send k 0 (cohere_input p m
                          (take (nat (batchSize p)) (drop (k * nat (batchSize p)) texts))))
                 [0..<(length texts + nat (batchSize p) - 1) div nat (batchSize p)]"
  from cohere_loop_all_asked [where tr = tr and vs = vs and I = INITIAL_RETRY_DELAY_MS
      and m = m and c = 0 and acc = "[]" and tot = 0 and evs = "[]", OF bs retries len wf]
  obtain r where r: "cohere_loop INITIAL_RETRY_DELAY_MS p tr texts m 0 0 [] 0 [] = Some (Inr r, ?es)"
    "embeddings r = vs" by auto
  have ce: "createEmbeddings INITIAL_RETRY_DELAY_MS p tr sc texts model = Some (finish (Inr r, ?es))" for sc
    using False C r(1) m by (simp add: createEmbeddings_def processCohereEmbeddings_def Let_def)
  have f: "finish (Inr r, ?es) = (Inr \<lparr> embeddings = vs,
              usage = \<lparr> promptTokens = promptTokens (usage r), totalTokens = totalTokens (usage r) \<rparr> \<rparr>, ?es)"
    using r(2) by (simp add: finish_def)
  show ?thesis unfolding ce f using len False by (auto simp: cohere_input_request)
qed

text \<open>
  The conditions on the configuration are needed. With \<^verbatim>\<open>maxRetries = 0\<close> the retry
  loop is not entered: no request is sent and the call fails, for either family,
  although no transport call has failed.
\<close>

theorem embeddings_no_attempt_counterexample:
  "createEmbeddings 500 (cohere_provider\<lparr> maxRetries := 0 \<rparr>) one_vector [] [[97]] None
     = Some (Inl (FailedMaxAttempts 0), [])
   \<and> createEmbeddings 500 (titan_provider\<lparr> maxRetries := 0 \<rparr>) two_vectors [0] [[97]] None
     = Some (Inl (FailedMaxAttempts 0), [])"
  by code_simp

lemma two_vectors_wellformed:
  "\<forall>i<length [[97::16 word], [98]]. \<exists>j xs. two_vectors i 0 = Resolved (Some j)
       \<and> get_property j ''embedding'' = Inr (Some (JArr xs))
       \<and> [JArr [JNum 0], JArr [JNum 1]] ! i = JArr xs"
  by (auto simp: two_vectors_def less_Suc_eq numeral_2_eq_2)

lemma chunk_vectors_wellformed:
  "\<forall>c. c * nat (batchSize cohere_provider) < length [[97::16 word], [98], [99]] \<longrightarrow>
       (\<exists>j. chunk_vectors c 0 = Resolved (Some j)
          \<and> get_property j ''embeddings''
              = Inr (Some (JArr (take (nat (batchSize cohere_provider))
                                   (drop (c * nat (batchSize cohere_provider))
                                      [JArr [JNum 0], JArr [JNum 1], JArr [JNum 2]])))))"
  by (simp add: chunk_vectors_def cohere_provider_def)

text \<open>
  Two texts for a Titan model with two permits, the second answered first; three
  texts for a Cohere model in chunks of two.
\<close>

theorem embeddings_in_input_order_witness:
  "(\<exists>later r evs.
      createEmbeddings 500 wide_provider two_vectors ([1, 1] @ later) [[97], [98]] None
        = Some (Inr r, evs)
      \<and> embeddings r = [JArr [JNum 0], JArr [JNum 1]]
      \<and> set evs = {Send 0 0 (titan_input ''amazon.titan-embed-text-v1'' [97]),
                    Send 1 0 (titan_input ''amazon.titan-embed-text-v1'' [98])}
      \<and> length evs = 2)
   \<and> (\<exists>r. createEmbeddings 500 cohere_provider chunk_vectors [] [[97], [98], [99]] None
        = Some (Inr r, [Send 0 0 (cohere_input cohere_provider ''cohere.embed-english-v3'' [[97], [98]]),
                        Send 1 0 (cohere_input cohere_provider ''cohere.embed-english-v3'' [[99]])])
      \<and> embeddings r = [JArr [JNum 0], JArr [JNum 1], JArr [JNum 2]])"
proof -
  have mt: "''amazon.titan-embed-text-v1'' = effective_model wide_provider None"
    by (simp add: effective_model_def wide_provider_def)
  have cfg: "0 < maxRetries wide_provider" "0 < maxConcurrency wide_provider"
    by (simp_all add: wide_provider_def)
  have len: "length [JArr [JNum 0], JArr [JNum 1]] = length [[97::16 word], [98]]" by simp
  have T: "isTitanModel ''amazon.titan-embed-text-v1''" by (simp add: isTitanModel_def)
  have nC: "\<not> isCohereModel ''amazon.titan-embed-text-v1''" by (simp add: isCohereModel_def)
  from embeddings_in_input_order [where tr = two_vectors and vs = "[JArr [JNum 0], JArr [JNum 1]]"
      and texts = "[[97], [98]]" and INITIAL_RETRY_DELAY_MS = 500, OF mt cfg(1) _ _ len]
    cfg(2) T nC two_vectors_wellformed
  have A: "\<forall>sched. \<exists>later r evs.
            createEmbeddings 500 wide_provider two_vectors (sched @ later) [[97], [98]] None = Some (Inr r, evs)
            \<and> embeddings r = [JArr [JNum 0], JArr [JNum 1]]"
    and B: "\<forall>sched res evs.
            createEmbeddings 500 wide_provider two_vectors sched [[97], [98]] None = Some (res, evs) \<longrightarrow>
              set evs = (\<lambda>i. Send i 0 \<lparr> modelId = ''amazon.titan-embed-text-v1'',
                                         contentType = ''application/json'',
                                         accept = ''application/json'',
                                         body = TitanBody ([[97], [98]] ! i) \<rparr>) ` {..<length [[97::16 word], [98]]}
              \<and> length evs = length [[97::16 word], [98]]"
    by blast+
  from A obtain later r evs where
    r: "createEmbeddings 500 wide_provider two_vectors ([1, 1] @ later) [[97], [98]] None = Some (Inr r, evs)"
    "embeddings r = [JArr [JNum 0], JArr [JNum 1]]" by blast
  have two: "{..<length [[97::16 word], [98]]} = {0, 1}" by auto
  from B r(1) have "set evs = {Send 0 0 (titan_input ''amazon.titan-embed-text-v1'' [97]),
                    Send 1 0 (titan_input ''amazon.titan-embed-text-v1'' [98])}"
    and "length evs = 2"
    unfolding two by (simp_all add: titan_input_request)
  with r have first: "\<exists>later r evs.
      createEmbeddings 500 wide_provider two_vectors ([1, 1] @ later) [[97], [98]] None
        = Some (Inr r, evs)
      \<and> embeddings r = [JArr [JNum 0], JArr [JNum 1]]
      \<and> set evs = {Send 0 0 (titan_input ''amazon.titan-embed-text-v1'' [97]),
                    Send 1 0 (titan_input ''amazon.titan-embed-text-v1'' [98])}
      \<and> length evs = 2"
    by blast
  have mc: "''cohere.embed-english-v3'' = effective_model cohere_provider None"
    by (simp add: effective_model_def cohere_provider_def)
  have ccfg: "0 < maxRetries cohere_provider" "0 < batchSize cohere_provider"
    by (simp_all add: cohere_provider_def)
  have len3: "length [JArr [JNum 0], JArr [JNum 1], JArr [JNum 2]] = length [[97::16 word], [98], [99]]"
    by simp
  have C: "isCohereModel ''cohere.embed-english-v3''" "\<not> isTitanModel ''cohere.embed-english-v3''"
    by (simp_all add: isCohereModel_def isTitanModel_def)
  from embeddings_in_input_order [where tr = chunk_vectors
      and vs = "[JArr [JNum 0], JArr [JNum 1], JArr [JNum 2]]"
      and texts = "[[97], [98], [99]]" and INITIAL_RETRY_DELAY_MS = 500, OF mc ccfg(1) _ _ len3]
    ccfg(2) C chunk_vectors_wellformed
  have A2: "\<forall>sched. \<exists>later r evs.
            createEmbeddings 500 cohere_provider chunk_vectors (sched @ later) [[97], [98], [99]] None
              = Some (Inr r, evs)
            \<and> embeddings r = [JArr [JNum 0], JArr [JNum 1], JArr [JNum 2]]"
    and B2: "\<forall>sched res evs.
            createEmbeddings 500 cohere_provider chunk_vectors sched [[97], [98], [99]] None = Some (res, evs) \<longrightarrow>
              evs = map (\<lambda>c. Send c 0
                              \<lparr> modelId = ''cohere.embed-english-v3'', contentType = ''application/json'',
                                accept = ''application/json'',
                                body = CohereBody
                                         (take (nat (batchSize cohere_provider))
                                            (drop (c * nat (batchSize cohere_provider)) [[97], [98], [99]]))
                                         (case inputType cohere_provider of
                                            None \<Rightarrow> ''search_document''
                                          | Some t \<Rightarrow> if t = [] then ''search_document'' else t) \<rparr>)
                           [0..<(length [[97::16 word], [98], [99]] + nat (batchSize cohere_provider) - 1)
                                  div nat (batchSize cohere_provider)]"
    by blast+
  from A2 obtain later2 r2 evs2 where
    r2: "createEmbeddings 500 cohere_provider chunk_vectors ([] @ later2) [[97], [98], [99]] None
           = Some (Inr r2, evs2)"
    "embeddings r2 = [JArr [JNum 0], JArr [JNum 1], JArr [JNum 2]]" by blast
  have same: "createEmbeddings 500 cohere_provider chunk_vectors ([] @ later2) [[97], [98], [99]] None
        = createEmbeddings 500 cohere_provider chunk_vectors [] [[97], [98], [99]] None"
    using C mc by (simp add: createEmbeddings_def Let_def)
  have r3: "createEmbeddings 500 cohere_provider chunk_vectors [] [[97], [98], [99]] None
           = Some (Inr r2, evs2)" using r2(1) same by simp
  have n: "(length [[97::16 word], [98], [99]] + nat (batchSize cohere_provider) - 1)
              div nat (batchSize cohere_provider) = 2"
    by (simp add: cohere_provider_def)
  have up: "[0..<2::nat] = [0, 1]" by (simp add: numeral_2_eq_2)
  from B2 r3 have "evs2 = map (\<lambda>c. Send c 0
                              \<lparr> modelId = ''cohere.embed-english-v3'', contentType = ''application/json'',
                                accept = ''application/json'',
                                body = CohereBody
                                         (take (nat (batchSize cohere_provider))
                                            (drop (c * nat (batchSize cohere_provider)) [[97], [98], [99]]))
                                         (case inputType cohere_provider of
                                            None \<Rightarrow> ''search_document''
                                          | Some t \<Rightarrow> if t = [] then ''search_document'' else t) \<rparr>)
                           [0..<(length [[97::16 word], [98], [99]] + nat (batchSize cohere_provider) - 1)
                                  div nat (batchSize cohere_provider)]"
    by blast
  then have "evs2 = [Send 0 0 (cohere_input cohere_provider ''cohere.embed-english-v3'' [[97], [98]]),
                        Send 1 0 (cohere_input cohere_provider ''cohere.embed-english-v3'' [[99]])]"
    unfolding n up by (simp add: cohere_input_request cohere_provider_def)
  with r3 r2(2) have second: "\<exists>r. createEmbeddings 500 cohere_provider chunk_vectors [] [[97], [98], [99]] None
        = Some (Inr r, [Send 0 0 (cohere_input cohere_provider ''cohere.embed-english-v3'' [[97], [98]]),
                        Send 1 0 (cohere_input cohere_provider ''cohere.embed-english-v3'' [[99]])])
      \<and> embeddings r = [JArr [JNum 0], JArr [JNum 1], JArr [JNum 2]]"
    by blast
  from first second show ?thesis by blast
qed

text \<open>
  The other two conditions. Without a permit no task is ever started and the call
  never settles. With a \<^verbatim>\<open>batchSize\<close> that is not positive the loop index never
  passes the end of the input, and the loop does not return although every call
  succeeds.
\<close>

lemma spawn_without_permit:
  assumes "maxConcurrency p \<le> 0"
  shows "permits (sem (foldl (spawn_one p m texts) (titan_init p) [0..<k])) = maxConcurrency p
         \<and> tasks (foldl (spawn_one p m texts) (titan_init p) [0..<k]) = replicate k Queued
         \<and> rejected (foldl (spawn_one p m texts) (titan_init p) [0..<k]) = None"
proof (induction k)
  case 0
  show ?case by (simp add: titan_init_def new_Semaphore_def)
next
  case (Suc k)
  let ?st = "foldl (spawn_one p m texts) (titan_init p) [0..<k]"
  have np: "\<not> permits (sem ?st) > 0" using Suc assms by simp
  have "spawn_one p m texts ?st k =
     ?st\<lparr> tasks := tasks ?st @ [Queued],
          sem := (sem ?st)\<lparr> waiting := waiting (sem ?st) @ [k], enqueued := enqueued (sem ?st) @ [k] \<rparr> \<rparr>"
    using np by (simp add: spawn_one_def acquire_def launch_def)
  then show ?case using Suc by (simp add: replicate_append_same)
qed

lemma all_queued_run:
  assumes "tasks st = replicate k Queued"
  shows "foldl (titan_step I p tr m texts) st sched = st"
proof (induction sched)
  case Nil
  show ?case by simp
next
  case (Cons i sched)
  have "titan_step I p tr m texts st i = st"
    using assms by (intro titan_step_idle) (cases "i < k", simp_all)
  then show ?case using Cons by simp
qed

lemma no_permit_never_settles:
  assumes T: "isTitanModel (effective_model p model)" and n: "maxConcurrency p \<le> 0"
    and texts: "texts \<noteq> []"
  shows "createEmbeddings I p tr sched texts model = None"
proof -
  let ?m = "effective_model p model"
  let ?st = "titan_spawn p ?m texts"
  from spawn_without_permit [OF n, of ?m texts "length texts"]
  have tk: "tasks ?st = replicate (length texts) Queued" and rj: "rejected ?st = None"
    by (simp_all add: titan_spawn_def)
  have run: "titan_run I p tr ?m texts sched = ?st"
    unfolding titan_run_def using tk by (rule all_queued_run)
  obtain k where k: "length texts = Suc k" using texts by (cases texts) simp_all
  have "those (map fulfilled (tasks ?st)) = None"
    unfolding tk k by (simp add: fulfilled_def)
  then have "titan_result ?st = None" using rj by (simp add: titan_result_def)
  then show ?thesis
    using T by (simp add: createEmbeddings_def processTitanEmbeddings_def Let_def run)
qed

lemma cohere_loop_no_progress:
  assumes "cohere_loop I p tr texts m i c acc tot evs = Some y"
  shows "batchSize p \<le> 0 \<longrightarrow> i \<le> 0 \<longrightarrow> texts \<noteq> [] \<longrightarrow> 0 < maxRetries p \<longrightarrow>
         (\<forall>c. \<exists>j ws. tr c 0 = Resolved (Some j)
                 \<and> get_property j ''embeddings'' = Inr (Some (JArr ws))) \<longrightarrow> False"
proof (rule cohere_loop.raw_induct
    [where P = "\<lambda>I p tr texts m i c acc tot evs y.
       batchSize p \<le> 0 \<longrightarrow> i \<le> 0 \<longrightarrow> texts \<noteq> [] \<longrightarrow> 0 < maxRetries p \<longrightarrow>
         (\<forall>c. \<exists>j ws. tr c 0 = Resolved (Some j)
                 \<and> get_property j ''embeddings'' = Inr (Some (JArr ws))) \<longrightarrow> False", OF _ assms])
  fix loop :: "int \<Rightarrow> provider \<Rightarrow> transport \<Rightarrow> jsstring list \<Rightarrow> string
     \<Rightarrow> int \<Rightarrow> nat \<Rightarrow> json list \<Rightarrow> nat \<Rightarrow> event list
     \<Rightarrow> ((error + EmbeddingResponse) \<times> event list) option"
  fix I' p' and tr' :: transport and texts' :: "jsstring list" and m' i' c' acc' tot' evs' y'
  assume IH: "\<And>I p tr texts m i c acc tot evs y.
       loop I p tr texts m i c acc tot evs = Some y \<Longrightarrow>
       batchSize p \<le> 0 \<longrightarrow> i \<le> 0 \<longrightarrow> texts \<noteq> [] \<longrightarrow> 0 < maxRetries p \<longrightarrow>
         (\<forall>c. \<exists>j ws. tr c 0 = Resolved (Some j)
                 \<and> get_property j ''embeddings'' = Inr (Some (JArr ws))) \<longrightarrow> False"
  assume body: "(if i' < int (length texts')
      then let batch = js_slice texts' i' (i' + batchSize p')
           in case embedCohereBatch I' p' (tr' c') c' batch m' of
              (Inl e, evs'') \<Rightarrow> Some (Inl e, evs' @ evs'')
              | (Inr (embs, k), evs'') \<Rightarrow>
                  loop I' p' tr' texts' m' (i' + batchSize p') (c' + 1) (acc' @ embs)
                   (tot' + k) (evs' @ evs'')
      else Some (Inr \<lparr>embeddings = acc', usage = \<lparr>promptTokens = tot', totalTokens = tot'\<rparr>\<rparr>, evs'))
     = Some y'"
  show "batchSize p' \<le> 0 \<longrightarrow> i' \<le> 0 \<longrightarrow> texts' \<noteq> [] \<longrightarrow> 0 < maxRetries p' \<longrightarrow>
         (\<forall>c. \<exists>j ws. tr' c 0 = Resolved (Some j)
                 \<and> get_property j ''embeddings'' = Inr (Some (JArr ws))) \<longrightarrow> False"
  proof (intro impI)
    assume b: "batchSize p' \<le> 0" and i: "i' \<le> 0" and t: "texts' \<noteq> []" and M: "0 < maxRetries p'"
      and wf: "\<forall>c. \<exists>j ws. tr' c 0 = Resolved (Some j)
                 \<and> get_property j ''embeddings'' = Inr (Some (JArr ws))"
    have lt: "i' < int (length texts')" using i t by (cases texts') simp_all
    let ?batch = "js_slice texts' i' (i' + batchSize p')"
    from wf obtain j ws where j: "tr' c' 0 = Resolved (Some j)"
      "get_property j ''embeddings'' = Inr (Some (JArr ws))" by blast
    have emb: "embedCohereBatch I' p' (tr' c') c' ?batch m'
           = (Inr (ws, code_tokens ?batch), [Send c' 0 (cohere_input p' m' ?batch)])"
      using M j by (intro embedCohereBatch_array) simp_all
    have rec: "loop I' p' tr' texts' m' (i' + batchSize p') (c' + 1) (acc' @ ws)
                 (tot' + code_tokens ?batch) (evs' @ [Send c' 0 (cohere_input p' m' ?batch)]) = Some y'"
      using body lt emb by (simp add: Let_def)
    have i2: "i' + batchSize p' \<le> 0" using i b by simp
    from IH [OF rec] b i2 t M wf show False by blast
  qed
qed

lemma no_chunk_never_returns:
  assumes nT: "\<not> isTitanModel (effective_model p model)" and C: "isCohereModel (effective_model p model)"
    and b: "batchSize p \<le> 0" and t: "texts \<noteq> []" and M: "0 < maxRetries p"
    and wf: "\<forall>c. \<exists>j ws. tr c 0 = Resolved (Some j)
                 \<and> get_property j ''embeddings'' = Inr (Some (JArr ws))"
  shows "createEmbeddings I p tr sched texts model = None"
proof -
  have "cohere_loop I p tr texts (effective_model p model) 0 0 [] 0 [] = None"
  proof (cases "cohere_loop I p tr texts (effective_model p model) 0 0 [] 0 []")
    case None
    then show ?thesis .
  next
    case (Some y)
    from cohere_loop_no_progress [OF Some] b t M wf have False by blast
    then show ?thesis ..
  qed
  then show ?thesis
    using nT C by (simp add: createEmbeddings_def processCohereEmbeddings_def Let_def)
qed

end
